theory Spec2Isabelle
  imports Complex_Main "HOL-Library.Log_Nat"
begin

section \<open>Python numbers\<close>

text \<open>
  Python integers are unbounded and are modelled by \<^typ>\<open>int\<close>. Python floats are IEEE 754
  binary64 numbers; a float is modelled by the real number it denotes, and every
  floating-point operation rounds its exact result to the nearest number with a 53-bit
  significand, ties to even (\<open>fl\<close>). The exponent range is not bounded: overflow to
  infinity and subnormal numbers do not occur at the magnitudes of pixel coordinates and
  colour channels.
\<close>

definition pow2 :: "int \<Rightarrow> real" where
  "pow2 e = (if 0 \<le> e then 2 ^ nat e else inverse (2 ^ nat (- e)))"

text \<open>\<open>ilog2 x\<close> is the binary exponent of a positive \<open>x\<close>: \<open>2 ^ ilog2 x \<le> x < 2 ^ (ilog2 x + 1)\<close>.\<close>

definition ilog2 :: "real \<Rightarrow> int" where
  "ilog2 x = (if 1 \<le> x then int (floorlog 2 (nat \<lfloor>x\<rfloor>)) - 1
              else - int (floorlog 2 (nat (\<lceil>1 / x\<rceil> - 1))))"

definition round_half_even :: "real \<Rightarrow> int" where
  "round_half_even x = (let f = \<lfloor>x\<rfloor>; d = x - of_int f in
     if d < 1 / 2 then f else if 1 / 2 < d then f + 1 else if even f then f else f + 1)"

definition fl :: "real \<Rightarrow> real" where
  "fl x = (if x = 0 then 0 else
     let u = pow2 (ilog2 \<bar>x\<bar> - 52) in of_int (round_half_even (x / u)) * u)"

text \<open>\<open>float(n)\<close> for an integer, implicit wherever an \<open>int\<close> meets a \<open>float\<close>.\<close>

definition float_of_int :: "int \<Rightarrow> real" where
  "float_of_int n = fl (of_int n)"

text \<open>\<open>int(x)\<close> for a float: truncation towards zero.\<close>

definition py_int :: "real \<Rightarrow> int" where
  "py_int x = (if 0 \<le> x then \<lfloor>x\<rfloor> else \<lceil>x\<rceil>)"

definition fadd :: "real \<Rightarrow> real \<Rightarrow> real" where
  "fadd x y = fl (x + y)"

definition fsub :: "real \<Rightarrow> real \<Rightarrow> real" where
  "fsub x y = fl (x - y)"

definition fmul :: "real \<Rightarrow> real \<Rightarrow> real" where
  "fmul x y = fl (x * y)"

text \<open>\<open>n * x\<close> with \<open>n\<close> an \<open>int\<close> and \<open>x\<close> a \<open>float\<close>.\<close>

definition imulf :: "int \<Rightarrow> real \<Rightarrow> real" where
  "imulf n x = fmul (float_of_int n) x"

definition fdiv :: "real \<Rightarrow> real \<Rightarrow> real" where
  "fdiv x y = fl (x / y)"

text \<open>\<open>a / b\<close> on two integers is the correctly rounded quotient; the caller checks \<open>b \<noteq> 0\<close>.\<close>

definition truediv :: "int \<Rightarrow> int \<Rightarrow> real" where
  "truediv a b = fl (of_int a / of_int b)"

datatype py_error = ValueError | ZeroDivisionError | IndexError | TypeError

text \<open>\<open>xs[i]\<close>: a negative index counts from the end, an index out of range raises.\<close>

definition py_index :: "'a list \<Rightarrow> int \<Rightarrow> py_error + 'a" where
  "py_index xs i =
     (if 0 \<le> i \<and> i < int (length xs) then Inr (xs ! nat i)
      else if i < 0 \<and> - int (length xs) \<le> i then Inr (xs ! nat (int (length xs) + i))
      else Inl IndexError)"

section \<open>Device frames (generate_marketing_screenshots.py)\<close>

text \<open>
  The imaging library is an external collaborator. A frame is modelled by the size of
  the image that \<open>Image.new\<close> allocates and the list of drawing calls made on it, in
  source order, each with the arguments the code computes. Of the library's behaviour
  its argument checks are modelled, each raising \<open>ValueError\<close>: \<open>Image.new\<close> refuses a
  negative dimension; \<open>resize\<close> needs both target dimensions to be at least 1;
  \<open>rounded_rectangle\<close> and \<open>ellipse\<close> refuse a box with \<open>x1 < x0\<close> or \<open>y1 < y0\<close>; and
  \<open>rounded_rectangle\<close> refuses a negative radius (its corner boxes are then inverted).
  A screenshot enters only through its size \<open>(sw, sh)\<close>.
\<close>

type_synonym rgba = "int \<times> int \<times> int \<times> int"
type_synonym box = "(int \<times> int) \<times> (int \<times> int)"

datatype draw_op =
    Rounded_rectangle box int rgba
  | Rounded_outline box int rgba int
  | Ellipse box rgba
  | Paste_screen "int \<times> int" "int \<times> int" int

record frame_image =
  img_size :: "int \<times> int"
  img_ops :: "draw_op list"

text \<open>
  \<open>op_error\<close>: the drawing call raises. The paste of the screenshot stands for
  \<open>resize\<close>, the mask with its rounded rectangle of radius \<open>corner_inner\<close> over
  \<open>[(0, 0), (inner_w - 1, inner_h - 1)]\<close>, and \<open>paste\<close>.
\<close>

fun op_error :: "draw_op \<Rightarrow> bool" where
  "op_error (Rounded_rectangle ((x0, y0), (x1, y1)) r c) = (x1 < x0 \<or> y1 < y0 \<or> r < 0)"
| "op_error (Rounded_outline ((x0, y0), (x1, y1)) r c w) = (x1 < x0 \<or> y1 < y0 \<or> r < 0)"
| "op_error (Ellipse ((x0, y0), (x1, y1)) c) = (x1 < x0 \<or> y1 < y0)"
| "op_error (Paste_screen (w, h) p r) = (w < 1 \<or> h < 1 \<or> r < 0)"

record geometry =
  bezel :: int
  inner_w :: int
  inner_h :: int
  frame_h :: int
  corner_outer :: int
  corner_inner :: int

definition iphone_geometry :: "int \<times> int \<Rightarrow> int \<Rightarrow> py_error + geometry" where
  "iphone_geometry screenshot_size frame_w =
    (let (sw, sh) = screenshot_size;
         bezel = max (py_int (imulf frame_w (fl 0.022))) 5;
         inner_w = frame_w - bezel * 2
     in if sw = 0 then Inl ZeroDivisionError else
     let scale = truediv inner_w sw;
         inner_h = py_int (imulf sh scale);
         frame_h = inner_h + bezel * 2;
         corner_outer = py_int (imulf frame_w (fl 0.082));
         corner_inner = corner_outer - bezel
     in Inr \<lparr>bezel = bezel, inner_w = inner_w, inner_h = inner_h, frame_h = frame_h,
              corner_outer = corner_outer, corner_inner = corner_inner\<rparr>)"

definition iphone_ops :: "geometry \<Rightarrow> int \<Rightarrow> draw_op list" where
  "iphone_ops g frame_w =
    (let ox = 4; oy = 4;
         di_w = py_int (imulf frame_w (fl 0.23));
         di_h = py_int (imulf frame_w (fl 0.052));
         di_r = di_h div 2;
         di_x = ox + (frame_w - di_w) div 2;
         di_y = oy + bezel g + py_int (imulf (inner_h g) (fl 0.005)) + 2;
         lens_r = py_int (imulf di_h (fl 0.22));
         lens_x = di_x + di_w - py_int (imulf di_w (fl 0.28));
         lens_y = di_y + di_h div 2;
         refl_r = max (lens_r div 3) 1;
         btn_thickness = 4;
         btn_h = py_int (imulf (frame_h g) (fl 0.048));
         btn_y = py_int (imulf (frame_h g) (fl 0.23));
         vol_h = py_int (imulf (frame_h g) (fl 0.033));
         vol_y1 = py_int (imulf (frame_h g) (fl 0.19));
         vol_y2 = vol_y1 + vol_h + py_int (imulf (frame_h g) (fl 0.012));
         act_h = py_int (imulf (frame_h g) (fl 0.018));
         act_y = vol_y1 - py_int (imulf (frame_h g) (fl 0.03))
     in [Rounded_rectangle ((ox, oy), (ox + frame_w - 1, oy + frame_h g - 1))
           (corner_outer g) (42, 42, 47, 255),
         Rounded_rectangle ((ox + 1, oy + 1), (ox + frame_w - 2, oy + frame_h g - 2))
           (corner_outer g - 1) (55, 55, 60, 255),
         Rounded_rectangle ((ox + 2, oy + 2), (ox + frame_w - 3, oy + frame_h g - 3))
           (corner_outer g - 2) (42, 42, 47, 255),
         Paste_screen (inner_w g, inner_h g) (ox + bezel g, oy + bezel g) (corner_inner g),
         Rounded_rectangle ((di_x, di_y), (di_x + di_w, di_y + di_h)) di_r (5, 5, 5, 255),
         Ellipse ((lens_x - lens_r, lens_y - lens_r), (lens_x + lens_r, lens_y + lens_r))
           (15, 15, 20, 255),
         Ellipse ((lens_x - refl_r + 1, lens_y - refl_r - 1),
                  (lens_x + refl_r + 1, lens_y + refl_r - 1)) (30, 30, 45, 255),
         Rounded_rectangle ((ox + frame_w - 1, oy + btn_y),
                            (ox + frame_w + btn_thickness, oy + btn_y + btn_h))
           2 (50, 50, 55, 255),
         Rounded_rectangle ((ox - btn_thickness, oy + vol_y1), (ox + 1, oy + vol_y1 + vol_h))
           2 (50, 50, 55, 255),
         Rounded_rectangle ((ox - btn_thickness, oy + vol_y2), (ox + 1, oy + vol_y2 + vol_h))
           2 (50, 50, 55, 255),
         Rounded_rectangle ((ox - btn_thickness, oy + act_y), (ox + 1, oy + act_y + act_h))
           2 (50, 50, 55, 255),
         Rounded_outline ((ox, oy), (ox + frame_w - 1, oy + frame_h g - 1))
           (corner_outer g) (255, 255, 255, 18) 1])"

definition build_iphone_frame :: "int \<times> int \<Rightarrow> int \<Rightarrow> py_error + frame_image" where
  "build_iphone_frame screenshot_size frame_w =
    (case iphone_geometry screenshot_size frame_w of
       Inl e \<Rightarrow> Inl e
     | Inr g \<Rightarrow>
         if frame_w + 8 < 0 \<or> frame_h g + 8 < 0 then Inl ValueError
         else if list_ex op_error (iphone_ops g frame_w) then Inl ValueError
         else Inr \<lparr>img_size = (frame_w + 8, frame_h g + 8), img_ops = iphone_ops g frame_w\<rparr>)"


definition ipad_geometry :: "int \<times> int \<Rightarrow> int \<Rightarrow> py_error + geometry" where
  "ipad_geometry screenshot_size frame_w =
    (let (sw, sh) = screenshot_size;
         bezel = max (py_int (imulf frame_w (fl 0.018))) 5;
         inner_w = frame_w - bezel * 2
     in if sw = 0 then Inl ZeroDivisionError else
     let scale = truediv inner_w sw;
         inner_h = py_int (imulf sh scale);
         frame_h = inner_h + bezel * 2;
         corner_outer = py_int (imulf frame_w (fl 0.028));
         corner_inner = max (corner_outer - bezel) 2
     in Inr \<lparr>bezel = bezel, inner_w = inner_w, inner_h = inner_h, frame_h = frame_h,
              corner_outer = corner_outer, corner_inner = corner_inner\<rparr>)"

definition ipad_ops :: "geometry \<Rightarrow> int \<Rightarrow> draw_op list" where
  "ipad_ops g frame_w =
    (let cam_r = max (py_int (imulf frame_w (fl 0.004))) 2;
         cam_x = frame_w div 2;
         cam_y = bezel g div 2 + 1
     in [Rounded_rectangle ((0, 0), (frame_w - 1, frame_h g - 1))
           (corner_outer g) (38, 38, 42, 255),
         Rounded_rectangle ((1, 1), (frame_w - 2, frame_h g - 2))
           (corner_outer g - 1) (52, 52, 56, 255),
         Rounded_rectangle ((2, 2), (frame_w - 3, frame_h g - 3))
           (corner_outer g - 2) (38, 38, 42, 255),
         Paste_screen (inner_w g, inner_h g) (bezel g, bezel g) (corner_inner g),
         Ellipse ((cam_x - cam_r, cam_y - cam_r), (cam_x + cam_r, cam_y + cam_r))
           (25, 25, 30, 255),
         Rounded_outline ((0, 0), (frame_w - 1, frame_h g - 1))
           (corner_outer g) (255, 255, 255, 15) 1])"

definition build_ipad_frame :: "int \<times> int \<Rightarrow> int \<Rightarrow> py_error + frame_image" where
  "build_ipad_frame screenshot_size frame_w =
    (case ipad_geometry screenshot_size frame_w of
       Inl e \<Rightarrow> Inl e
     | Inr g \<Rightarrow>
         if frame_w < 0 \<or> frame_h g < 0 then Inl ValueError
         else if list_ex op_error (ipad_ops g frame_w) then Inl ValueError
         else Inr \<lparr>img_size = (frame_w, frame_h g), img_ops = ipad_ops g frame_w\<rparr>)"

text \<open>
  The region of a frame that shows the screenshot is the box of the \<open>paste\<close> call, and the
  device body is the box of the first rounded rectangle (both with inclusive corners, as
  the library takes them). \<open>inside_with_margin m inner outer\<close>: the inner box is not empty
  and keeps a margin of at least \<open>m\<close> pixels to the outer box on all four sides.
\<close>

fun screen_box :: "draw_op list \<Rightarrow> box option" where
  "screen_box [] = None"
| "screen_box (Paste_screen (w, h) (x, y) r # ops) = Some ((x, y), (x + w - 1, y + h - 1))"
| "screen_box (_ # ops) = screen_box ops"

fun body_box :: "draw_op list \<Rightarrow> box option" where
  "body_box [] = None"
| "body_box (Rounded_rectangle b r c # ops) = Some b"
| "body_box (_ # ops) = body_box ops"

fun inside_with_margin :: "int \<Rightarrow> box \<Rightarrow> box \<Rightarrow> bool" where
  "inside_with_margin m ((ix0, iy0), (ix1, iy1)) ((ox0, oy0), (ox1, oy1)) =
     (ix0 \<le> ix1 \<and> iy0 \<le> iy1 \<and>
      ox0 + m \<le> ix0 \<and> oy0 + m \<le> iy0 \<and> ix1 + m \<le> ox1 \<and> iy1 + m \<le> oy1)"

section \<open>Vertical gradient (generate_marketing_screenshots.py)\<close>

text \<open>
  A colour stop is an RGB triple. The canvas of \<open>create_soft_gradient\<close> is an RGBA image:
  its size and the colour of every pixel. Every line the function draws is horizontal,
  from \<open>(0, y)\<close> to \<open>(w, y)\<close>; the library clips it to the image.
\<close>

type_synonym rgb = "int \<times> int \<times> int"

record canvas =
  cv_size :: "int \<times> int"
  cv_pixel :: "int \<times> int \<Rightarrow> rgba"

definition new_rgba :: "int \<times> int \<Rightarrow> py_error + canvas" where
  "new_rgba sz = (if fst sz < 0 \<or> snd sz < 0 then Inl ValueError
                  else Inr \<lparr>cv_size = sz, cv_pixel = (\<lambda>p. (0, 0, 0, 0))\<rparr>)"

definition draw_hline :: "canvas \<Rightarrow> int \<Rightarrow> int \<Rightarrow> int \<Rightarrow> rgba \<Rightarrow> canvas" where
  "draw_hline img y x0 x1 fill =
     img\<lparr>cv_pixel := (\<lambda>(px, py).
        if py = y \<and> x0 \<le> px \<and> px \<le> x1 \<and>
           0 \<le> px \<and> px < fst (cv_size img) \<and> 0 \<le> py \<and> py < snd (cv_size img)
        then fill else cv_pixel img (px, py))\<rparr>"

definition lerp_channel :: "int \<Rightarrow> int \<Rightarrow> real \<Rightarrow> int" where
  "lerp_channel a b t = py_int (fadd (float_of_int a) (imulf (b - a) t))"

fun lerp :: "rgb \<Rightarrow> rgb \<Rightarrow> real \<Rightarrow> rgb" where
  "lerp (a1, a2, a3) (b1, b2, b3) t =
     (lerp_channel a1 b1 t, lerp_channel a2 b2 t, lerp_channel a3 b3 t)"

definition smoothstep :: "real \<Rightarrow> real" where
  "smoothstep t = fmul (fmul t t) (fsub (float_of_int 3) (imulf 2 t))"

text \<open>The body of the row loop up to the colour \<open>c\<close> of row \<open>y\<close>; inside the loop \<open>h > 0\<close>.\<close>

definition gradient_row :: "int \<Rightarrow> rgb list \<Rightarrow> int \<Rightarrow> py_error + rgb" where
  "gradient_row h colors y =
    (let n = int (length colors);
         t = truediv y h;
         t_eased = smoothstep t;
         pos = fmul t_eased (float_of_int (n - 1));
         idx = min (py_int pos) (n - 2);
         frac = fsub pos (float_of_int idx)
     in case py_index colors idx of
          Inl e \<Rightarrow> Inl e
        | Inr c1 \<Rightarrow>
           (case py_index colors (idx + 1) of
              Inl e \<Rightarrow> Inl e
            | Inr c2 \<Rightarrow> Inr (lerp c1 c2 frac)))"

fun with_alpha :: "rgb \<Rightarrow> rgba" where
  "with_alpha (r, g, b) = (r, g, b, 255)"

fun gradient_loop :: "int \<Rightarrow> int \<Rightarrow> rgb list \<Rightarrow> int list \<Rightarrow> canvas \<Rightarrow> py_error + canvas" where
  "gradient_loop w h colors [] img = Inr img"
| "gradient_loop w h colors (y # ys) img =
     (case gradient_row h colors y of
        Inl e \<Rightarrow> Inl e
      | Inr c \<Rightarrow> gradient_loop w h colors ys (draw_hline img y 0 w (with_alpha c)))"

definition create_soft_gradient :: "int \<times> int \<Rightarrow> rgb list \<Rightarrow> py_error + canvas" where
  "create_soft_gradient sz colors =
    (let (w, h) = sz in
     case new_rgba sz of
       Inl e \<Rightarrow> Inl e
     | Inr img \<Rightarrow> gradient_loop w h colors [0..h - 1] img)"

text \<open>The colour of pixel \<open>p\<close> of a result; a raised error has no pixels.\<close>

definition pixel_of :: "py_error + canvas \<Rightarrow> int \<times> int \<Rightarrow> rgba option" where
  "pixel_of r p = (case r of Inl e \<Rightarrow> None | Inr img \<Rightarrow> Some (cv_pixel img p))"


text \<open>A colour stop is well formed when its channels are 8-bit values.\<close>

definition valid_rgb :: "rgb \<Rightarrow> bool" where
  "valid_rgb c = (case c of (r, g, b) \<Rightarrow>
     0 \<le> r \<and> r \<le> 255 \<and> 0 \<le> g \<and> g \<le> 255 \<and> 0 \<le> b \<and> b \<le> 255)"

text \<open>Two colours agree within rounding when no channel differs by more than 1.\<close>

fun within_rounding :: "rgba \<Rightarrow> rgba \<Rightarrow> bool" where
  "within_rounding (r, g, b, a) (r', g', b', a') =
     (\<bar>r - r'\<bar> \<le> 1 \<and> \<bar>g - g'\<bar> \<le> 1 \<and> \<bar>b - b'\<bar> \<le> 1 \<and> a = a')"

section \<open>Seeded decoration (draw_soft_shapes, shot4)\<close>

text \<open>
  Python's \<open>random\<close> module keeps one generator state for the whole process. The
  generator is library code: it enters the model as a parameter, a record of the three
  operations the scripts call, each a function of the state \<open>'g\<close>. \<open>randint a b\<close>
  raises \<open>ValueError\<close> on an empty range.
\<close>

record 'g random_module =
  seed :: "int \<Rightarrow> 'g"
  randint :: "int \<Rightarrow> int \<Rightarrow> 'g \<Rightarrow> int \<times> 'g"
  uniform :: "real \<Rightarrow> real \<Rightarrow> 'g \<Rightarrow> real \<times> 'g"

definition py_randint :: "'g random_module \<Rightarrow> int \<Rightarrow> int \<Rightarrow> 'g \<Rightarrow> py_error + int \<times> 'g" where
  "py_randint R a b g = (if b < a then Inl ValueError else Inr (randint R a b g))"

text \<open>A bubble is the ellipse \<open>(bx, by, br)\<close> and its opacity.\<close>

type_synonym bubble = "int \<times> int \<times> int \<times> int"

fun bubble_loop ::
  "'g random_module \<Rightarrow> int \<Rightarrow> int \<Rightarrow> nat \<Rightarrow> 'g \<Rightarrow> py_error + bubble list \<times> 'g" where
  "bubble_loop R cw ch 0 g = Inr ([], g)"
| "bubble_loop R cw ch (Suc k) g =
    (case py_randint R (py_int (imulf cw (fl 0.05))) (py_int (imulf cw (fl 0.95))) g of
       Inl e \<Rightarrow> Inl e
     | Inr (bx, g1) \<Rightarrow>
    (case py_randint R (py_int (imulf ch (fl 0.02))) (py_int (imulf ch (fl 0.32))) g1 of
       Inl e \<Rightarrow> Inl e
     | Inr (by, g2) \<Rightarrow>
    (case py_randint R (py_int (imulf cw (fl 0.01))) (py_int (imulf cw (fl 0.025))) g2 of
       Inl e \<Rightarrow> Inl e
     | Inr (br, g3) \<Rightarrow>
    (case py_randint R 25 50 g3 of
       Inl e \<Rightarrow> Inl e
     | Inr (opacity, g4) \<Rightarrow>
    (case bubble_loop R cw ch k g4 of
       Inl e \<Rightarrow> Inl e
     | Inr (bs, g5) \<Rightarrow> Inr ((bx, by, br, opacity) # bs, g5))))))"

text \<open>
  \<open>draw_soft_shapes\<close>: the two large glows (centre, radius, colour) and the eight bubbles
  it composites onto the canvas, and the generator state it leaves behind. \<open>g\<close> is the
  state of the generator when the function is called.
\<close>

record soft_shapes =
  glow1 :: "int \<times> int \<times> int \<times> rgba"
  glow2 :: "int \<times> int \<times> int \<times> rgba"
  bubbles :: "bubble list"

definition draw_soft_shapes ::
  "'g random_module \<Rightarrow> int \<Rightarrow> int \<Rightarrow> rgb list \<Rightarrow> 'g \<Rightarrow> py_error + soft_shapes \<times> 'g" where
  "draw_soft_shapes R cw ch base_colors g =
    (case py_index base_colors 1 of
       Inl e \<Rightarrow> Inl e
     | Inr (m0, m1, m2) \<Rightarrow>
        (let c1 = (min (m0 + 30) 255, min (m1 + 30) 255, min (m2 + 30) 255, 50);
             c2 = (max (m0 - 20) 0, max (m1 - 20) 0, max (m2 - 20) 0, 35)
         in case bubble_loop R cw ch 8 (seed R 42) of
              Inl e \<Rightarrow> Inl e
            | Inr (bs, g') \<Rightarrow>
                Inr (\<lparr>glow1 = (py_int (imulf cw (fl 0.15)), py_int (imulf ch (fl 0.08)),
                              py_int (imulf cw (fl 0.5)), c1),
                      glow2 = (py_int (imulf cw (fl 0.85)), py_int (imulf ch (fl 0.7)),
                              py_int (imulf cw (fl 0.4)), c2),
                      bubbles = bs\<rparr>, g')))"

text \<open>
  The bar chart of \<open>shot4\<close>: for each of the seven days four segment heights are drawn
  from the generator and scaled, \<open>sh = int(seg_h_val * s)\<close> with \<open>s = w / 1290\<close>.
\<close>

fun bar_loop :: "'g random_module \<Rightarrow> real \<Rightarrow> nat \<Rightarrow> 'g \<Rightarrow> int list list \<times> 'g" where
  "bar_loop R s 0 g = ([], g)"
| "bar_loop R s (Suc k) g =
    (let (h1, g1) = uniform R 80 160 g;
         (h2, g2) = uniform R 25 70 g1;
         (h3, g3) = uniform R 12 45 g2;
         (h4, g4) = uniform R 8 30 g3;
         heights = [h1, h2, h3, h4];
         (rest, g5) = bar_loop R s k g4
     in (map (\<lambda>seg_h_val. py_int (fmul seg_h_val s)) heights # rest, g5))"

definition shot4_bars :: "'g random_module \<Rightarrow> int \<Rightarrow> 'g \<Rightarrow> int list list \<times> 'g" where
  "shot4_bars R w g = bar_loop R (truediv w 1290) 7 (seed R 42)"

section \<open>The generate routine (generate_marketing_screenshots.py)\<close>

text \<open>
  The world of a run: the files that exist (path to content), the lines printed so far
  and the state of the random generator. \<open>os.path.join\<close> is modelled for POSIX paths.
  Steps 1 to 8 of \<open>generate\<close> and the PNG encoding are library work on the opened
  screenshot; they enter as the parameter \<open>render\<close>, which may read any file (the fonts),
  uses and updates the generator state, and may raise.
\<close>

type_synonym path = string

datatype message = Missing path | Done string

record ('f, 'g) world =
  files :: "path \<Rightarrow> 'f option"
  stdout :: "message list"
  rng :: 'g

record screen =
  scr_file :: string
  scr_out :: string
  scr_headline :: string
  scr_subtitle :: string
  scr_colors :: "rgb list"
  scr_tilt :: real

definition path_join :: "path \<Rightarrow> path \<Rightarrow> path" where
  "path_join a b =
     (if b \<noteq> [] \<and> hd b = CHR ''/'' then b
      else if a = [] \<or> last a = CHR ''/'' then a @ b
      else a @ ''/'' @ b)"

type_synonym ('f, 'g) renderer =
  "(path \<Rightarrow> 'f option) \<Rightarrow> path \<Rightarrow> screen \<Rightarrow> int \<times> int \<Rightarrow> string \<Rightarrow> 'g \<Rightarrow> py_error + 'f \<times> 'g"

definition generate ::
  "('f, 'g) renderer \<Rightarrow> screen \<Rightarrow> path \<Rightarrow> path \<Rightarrow> int \<times> int \<Rightarrow> string \<Rightarrow>
   ('f, 'g) world \<Rightarrow> py_error + ('f, 'g) world" where
  "generate render scr input_dir output_dir canvas_size device_type w =
    (let src = path_join input_dir (scr_file scr) in
     if files w src = None
     then Inr (w\<lparr>stdout := stdout w @ [Missing src]\<rparr>)
     else
      (case render (files w) src scr canvas_size device_type (rng w) of
         Inl e \<Rightarrow> Inl e
       | Inr (png, g') \<Rightarrow>
           Inr (w\<lparr>files := (files w)(path_join output_dir (scr_out scr) \<mapsto> png),
                    stdout := stdout w @ [Done (scr_out scr)],
                    rng := g'\<rparr>)))"

text \<open>One of the four loops of \<open>main\<close>: \<open>for s in SCREENS: generate(s, ...)\<close>.\<close>

fun generate_all ::
  "('f, 'g) renderer \<Rightarrow> screen list \<Rightarrow> path \<Rightarrow> path \<Rightarrow> int \<times> int \<Rightarrow> string \<Rightarrow>
   ('f, 'g) world \<Rightarrow> py_error + ('f, 'g) world" where
  "generate_all render [] input_dir output_dir canvas_size device_type w = Inr w"
| "generate_all render (s # ss) input_dir output_dir canvas_size device_type w =
    (case generate render s input_dir output_dir canvas_size device_type w of
       Inl e \<Rightarrow> Inl e
     | Inr w' \<Rightarrow> generate_all render ss input_dir output_dir canvas_size device_type w')"

text \<open>What a run leaves behind apart from its printed lines.\<close>

definition effects :: "py_error + ('f, 'g) world \<Rightarrow> py_error + (path \<Rightarrow> 'f option) \<times> 'g" where
  "effects r = (case r of Inl e \<Rightarrow> Inl e | Inr w \<Rightarrow> Inr (files w, rng w))"


section \<open>The growth chart of shot3 (generate_screenshots.py)\<close>

text \<open>
  \<open>S(val, scale)\<close> scales a design length. The chart is recorded as the list of drawing
  calls it makes; a fill is the tuple passed to the library, three or four channels.
\<close>

definition S :: "int \<Rightarrow> real \<Rightarrow> int" where
  "S val scale = py_int (imulf val scale)"

type_synonym fill = "int list"

definition BLUE :: fill where "BLUE = [102, 153, 217]"
definition GREEN :: fill where "GREEN = [87, 179, 135]"
definition WHITE :: fill where "WHITE = [255, 255, 255]"
definition T2 :: fill where "T2 = [130, 130, 140]"

datatype chart_op =
    Line "int \<times> int" "int \<times> int" fill int
  | Text "int \<times> int" string int fill
  | Circ int int int fill
  | Band box int fill

text \<open>
  The elements of the percentile table are heterogeneous tuples, so a tuple is a list of
  values. A \<open>for\<close> target list of three names unpacks a tuple of exactly three elements
  and raises \<open>ValueError\<close> on any other length.
\<close>

datatype pyval = PFloat real | PStr string

definition unpack3 :: "pyval list \<Rightarrow> py_error + pyval \<times> pyval \<times> pyval" where
  "unpack3 t = (case t of [a, b, c] \<Rightarrow> Inr (a, b, c) | _ \<Rightarrow> Inl ValueError)"

definition percentile_table :: "pyval list list" where
  "percentile_table =
     [[PFloat (fl 0.25), PStr ''P97''], [PFloat (fl 0.5), PStr ''P50''],
      [PFloat (fl 0.78), PStr ''P3'']]"

text \<open>\<open>for dx in range(0, chart_w, 18)\<close>: one dash of 9 pixels every 18.\<close>

definition dashes :: "int \<Rightarrow> int \<Rightarrow> int \<Rightarrow> chart_op list" where
  "dashes chart_x chart_w line_y =
     map (\<lambda>k. Line (chart_x + 18 * k, line_y) (chart_x + 18 * k + 9, line_y) (GREEN @ [80]) 1)
         [0..(chart_w + 17) div 18 - 1]"

text \<open>
  The loop over the table. Where \<open>pct\<close> is bound to one of the table's labels, \<open>int\<close> of
  the repeated label raises \<open>ValueError\<close>; a number in the place of the label is refused
  by \<open>draw.text\<close>.
\<close>

fun percentile_lines ::
  "int \<Rightarrow> int \<Rightarrow> int \<Rightarrow> int \<Rightarrow> real \<Rightarrow> pyval list list \<Rightarrow> py_error + chart_op list" where
  "percentile_lines chart_x chart_w y chart_h s [] = Inr []"
| "percentile_lines chart_x chart_w y chart_h s (row # rows) =
    (case unpack3 row of
       Inl e \<Rightarrow> Inl e
     | Inr (pct, pct_y_frac, label) \<Rightarrow>
        (case pct of
           PStr _ \<Rightarrow> Inl ValueError
         | PFloat p \<Rightarrow>
            (case label of
               PFloat _ \<Rightarrow> Inl TypeError
             | PStr l \<Rightarrow>
                (let line_y = y + py_int (fmul p (float_of_int chart_h)) in
                 case percentile_lines chart_x chart_w y chart_h s rows of
                   Inl e \<Rightarrow> Inl e
                 | Inr ops \<Rightarrow>
                     Inr (dashes chart_x chart_w line_y @
                          [Text (chart_x + chart_w + S 8 s, line_y - S 10 s) l (S 16 s) GREEN] @
                          ops)))))"

text \<open>
  One sample of the growth curve. \<open>math.exp\<close> is library code and enters as the parameter
  \<open>math_exp\<close>.
\<close>

definition growth_point ::
  "(real \<Rightarrow> real) \<Rightarrow> int \<Rightarrow> int \<Rightarrow> int \<Rightarrow> int \<Rightarrow> int \<Rightarrow> int \<times> int" where
  "growth_point math_exp chart_x chart_w y chart_h i =
    (let t = truediv i 29;
         px = chart_x + py_int (fmul t (float_of_int chart_w));
         weight = fadd (fl 3.0)
                    (fmul (fl 5.5) (fsub (float_of_int 1) (math_exp (fmul (fl (- 2.5)) t))));
         py = y + chart_h -
              py_int (fmul (fdiv (fsub weight (float_of_int 0)) (fl 10.0)) (float_of_int chart_h))
     in (px, py))"

definition growth_points ::
  "(real \<Rightarrow> real) \<Rightarrow> int \<Rightarrow> int \<Rightarrow> int \<Rightarrow> int \<Rightarrow> (int \<times> int) list" where
  "growth_points math_exp chart_x chart_w y chart_h =
     map (growth_point math_exp chart_x chart_w y chart_h) [0..29]"

text \<open>\<open>pts[::6]\<close>\<close>

fun every_sixth :: "'a list \<Rightarrow> 'a list" where
  "every_sixth (a # b # c # d # e # f # rest) = a # every_sixth rest"
| "every_sixth (a # rest) = [a]"
| "every_sixth [] = []"

text \<open>
  The chart section of \<open>shot3\<close>, from the chart area to the sample markers, on the local
  variables \<open>w\<close>, \<open>s\<close>, \<open>margin\<close> and \<open>y\<close>. It returns the drawing calls and the layout
  cursor \<open>y\<close> below the chart.
\<close>

definition shot3_chart ::
  "(real \<Rightarrow> real) \<Rightarrow> int \<Rightarrow> real \<Rightarrow> int \<Rightarrow> int \<Rightarrow> py_error + chart_op list \<times> int" where
  "shot3_chart math_exp w s margin y =
    (let chart_x = margin + S 60 s;
         chart_w = w - margin * 2 - S 80 s;
         chart_h = S 650 s;
         band = [Band ((chart_x, y), (chart_x + chart_w, y + chart_h)) (S 12 s) (GREEN @ [18])];
         grid = map (\<lambda>i. Line (chart_x, y + i * (chart_h div 5))
                              (chart_x + chart_w, y + i * (chart_h div 5)) (GREEN @ [40]) 1)
                    [0..5];
         y_labels = [''10 kg'', ''8 kg'', ''6 kg'', ''4 kg'', ''2 kg'', ''0''];
         y_axis = map (\<lambda>(i, yl). Text (margin, y + i * (chart_h div 5) - S 10 s) yl (S 18 s) T2)
                      (zip [0..5] y_labels);
         x_labels = [''0'', ''3'', ''6'', ''9'', ''12''];
         x_axis = map (\<lambda>(i, xl). Text (chart_x + i * (chart_w div 4) - S 5 s,
                                         y + chart_h + S 10 s) xl (S 18 s) T2)
                      (zip [0..4] x_labels) @
                  [Text (chart_x + chart_w div 2 - S 60 s, y + chart_h + S 38 s)
                        ''Age (months)'' (S 20 s) T2]
     in case percentile_lines chart_x chart_w y chart_h s percentile_table of
          Inl e \<Rightarrow> Inl e
        | Inr pct_ops \<Rightarrow>
           (let pts = growth_points math_exp chart_x chart_w y chart_h;
                curve = map (\<lambda>(p, q). Line p q BLUE (S 5 s)) (zip pts (tl pts));
                markers = concat (map (\<lambda>(px, py). [Circ px py (S 9 s) BLUE,
                                                      Circ px py (S 4 s) WHITE])
                                      (every_sixth pts))
            in Inr (band @ grid @ y_axis @ x_axis @ pct_ops @ curve @ markers,
                    y + chart_h + S 65 s)))"

text \<open>
  \<open>shot3\<close>: the canvas, the layout cursor down to the chart (headline, measurement cards
  and segmented control draw without influence on what follows and are not recorded), the
  chart, and then the remainder of the function (legend, measurement table and
  \<open>img.save\<close>) as the parameter \<open>rest\<close>.
\<close>

definition shot3 ::
  "(real \<Rightarrow> real) \<Rightarrow> (int \<times> int \<Rightarrow> real \<Rightarrow> int \<Rightarrow> int \<Rightarrow> chart_op list \<Rightarrow> py_error + 'a) \<Rightarrow>
   int \<times> int \<Rightarrow> py_error + 'a" where
  "shot3 math_exp rest sz =
    (let (w, h) = sz;
         s = truediv w 1290
     in if w < 0 \<or> h < 0 then Inl ValueError else
     let margin = S 80 s;
         y = S 100 s;
         y = y + S 95 s;
         y = y + S 100 s;
         y = y + S 80 s;
         ph = S 155 s;
         y = y + ph + S 30 s;
         seg_h = S 52 s;
         y = y + seg_h + S 30 s
     in case shot3_chart math_exp w s margin y of
          Inl e \<Rightarrow> Inl e
        | Inr (ops, y') \<Rightarrow> rest sz s margin y' ops)"


section \<open>Properties of rounding\<close>

text \<open>
  The facts about \<open>fl\<close> that the claims rest on: it is odd and monotone, exact on
  integers up to \<open>2 ^ 53\<close>, and its relative error is at most \<open>2 ^ - 53\<close>.
\<close>

lemma pow2_powr: "pow2 e = 2 powr (of_int e)"
proof (cases "0 \<le> e")
  case True
  then show ?thesis by (simp add: pow2_def powr_realpow[symmetric])
next
  case False
  then have "2 powr (of_int e) = inverse (2 powr (real (nat (- e))))"
    by (simp add: powr_minus[symmetric])
  with False show ?thesis by (simp add: pow2_def powr_realpow[symmetric])
qed

lemma pow2_pos [simp]: "0 < pow2 e"
  by (simp add: pow2_powr)

lemma pow2_add: "pow2 (a + b) = pow2 a * pow2 b"
  by (simp add: pow2_powr powr_add)

lemma pow2_mono: "a \<le> b \<Longrightarrow> pow2 a \<le> pow2 b"
  by (simp add: pow2_powr)

lemma pow2_less_iff: "pow2 a < pow2 b \<longleftrightarrow> a < b"
  by (simp add: pow2_powr)

lemma pow2_nat: "pow2 (int n) = 2 ^ n"
  by (simp add: pow2_def)

lemma ilog2_bounds:
  assumes "0 < x"
  shows "pow2 (ilog2 x) \<le> x" and "x < pow2 (ilog2 x + 1)"
proof -
  have "pow2 (ilog2 x) \<le> x \<and> x < pow2 (ilog2 x + 1)"
  proof (cases "1 \<le> x")
    case True
    define n where "n = nat \<lfloor>x\<rfloor>"
    have fx: "1 \<le> \<lfloor>x\<rfloor>" using True by linarith
    then have rn: "real n = of_int \<lfloor>x\<rfloor>" by (simp add: n_def)
    have n: "0 < n" "real n \<le> x" "x < real n + 1"
      using fx unfolding rn by (simp add: n_def, linarith, linarith)
    define k where "k = floorlog 2 n"
    have b: "2 ^ (k - 1) \<le> n" "n < 2 ^ k"
      using floorlog_bounds[of n 2] n(1) by (auto simp: k_def)
    have k: "0 < k" using b(2) n(1) by (cases k) auto
    have e: "ilog2 x = int k - 1" using True by (simp add: ilog2_def n_def k_def)
    have "pow2 (ilog2 x) = 2 ^ (k - 1)"
      using k by (simp add: e pow2_def nat_diff_distrib' of_nat_diff)
    moreover have "pow2 (ilog2 x + 1) = 2 ^ k" by (simp add: e pow2_nat)
    moreover have "(2::real) ^ (k - 1) \<le> real n"
      using of_nat_mono[OF b(1), where 'a=real] by simp
    moreover have "real n + 1 \<le> 2 ^ k"
      using of_nat_mono[OF Suc_leI[OF b(2)], where 'a=real] by simp
    ultimately show ?thesis using n by linarith
  next
    case False
    with assms have x1: "x < 1" by simp
    have inv: "1 < 1 / x" using assms x1 by simp
    define m where "m = nat (\<lceil>1 / x\<rceil> - 1)"
    have c2: "2 \<le> \<lceil>1 / x\<rceil>" using inv by linarith
    define z where "z = \<lceil>1 / x\<rceil> - 1"
    have z: "1 \<le> z" using c2 by (simp add: z_def)
    then have "real (nat z) = of_int z" by simp
    then have rm: "real m = of_int \<lceil>1 / x\<rceil> - 1" by (simp add: m_def z_def)
    have m: "0 < m" "real m < 1 / x" "1 / x \<le> real m + 1"
      using z unfolding rm by (simp add: m_def z_def, linarith, linarith)
    define k where "k = floorlog 2 m"
    have b: "2 ^ (k - 1) \<le> m" "m < 2 ^ k"
      using floorlog_bounds[of m 2] m(1) by (auto simp: k_def)
    have k: "0 < k" using b(2) m(1) by (cases k) auto
    have e: "ilog2 x = - int k" using False by (simp add: ilog2_def m_def k_def)
    have p1: "pow2 (ilog2 x) = inverse (2 ^ k)" using k by (simp add: e pow2_def)
    have p2: "pow2 (ilog2 x + 1) = inverse (2 ^ (k - 1))"
    proof (cases "k = 1")
      case True then show ?thesis by (simp add: e pow2_def)
    next
      case False
      with k have "- int k + 1 < 0" "nat (int k - 1) = k - 1" by auto
      then show ?thesis by (simp add: e pow2_def)
    qed
    have r1: "(2::real) ^ (k - 1) \<le> real m"
      using of_nat_mono[OF b(1), where 'a=real] by simp
    have r2: "real m + 1 \<le> 2 ^ k"
      using of_nat_mono[OF Suc_leI[OF b(2)], where 'a=real] by simp
    have "1 / x \<le> 2 ^ k" using m r2 by linarith
    then have a: "inverse (2 ^ k) \<le> x"
      using assms by (simp add: field_simps)
    have "2 ^ (k - 1) < 1 / x" using m r1 by linarith
    then have "x < inverse (2 ^ (k - 1))"
      using assms by (simp add: field_simps)
    with a p1 p2 show ?thesis by simp
  qed
  then show "pow2 (ilog2 x) \<le> x" and "x < pow2 (ilog2 x + 1)" by auto
qed

lemma ilog2_unique:
  assumes "pow2 e \<le> x" "x < pow2 (e + 1)"
  shows "ilog2 x = e"
proof -
  have x: "0 < x" using assms(1) pow2_pos[of e] by linarith
  from ilog2_bounds[OF x] assms
  have "pow2 (ilog2 x) < pow2 (e + 1)" "pow2 e < pow2 (ilog2 x + 1)" by linarith+
  then show ?thesis by (simp add: pow2_less_iff)
qed

lemma ilog2_mono:
  assumes "0 < x" "x \<le> y"
  shows "ilog2 x \<le> ilog2 y"
proof -
  have "pow2 (ilog2 x) < pow2 (ilog2 y + 1)"
    using ilog2_bounds[of x] ilog2_bounds[of y] assms by linarith
  then show ?thesis by (simp add: pow2_less_iff)
qed

lemma rhe_bounds: "of_int (round_half_even x) \<le> x + 1 / 2" "x - 1 / 2 \<le> of_int (round_half_even x)"
  unfolding round_half_even_def Let_def by (auto; linarith)+

lemma rhe_of_int [simp]: "round_half_even (of_int n) = n"
  by (simp add: round_half_even_def)

lemma rhe_mono:
  assumes "x \<le> y"
  shows "round_half_even x \<le> round_half_even y"
proof (cases "\<lfloor>x\<rfloor> = \<lfloor>y\<rfloor>")
  case True
  then show ?thesis using assms unfolding round_half_even_def Let_def by auto
next
  case False
  with assms have lt: "\<lfloor>x\<rfloor> + 1 \<le> \<lfloor>y\<rfloor>" using floor_mono[OF assms] by linarith
  have "round_half_even x \<le> \<lfloor>x\<rfloor> + 1" unfolding round_half_even_def Let_def by auto
  moreover have "\<lfloor>y\<rfloor> \<le> round_half_even y" unfolding round_half_even_def Let_def by auto
  ultimately show ?thesis using lt by linarith
qed

lemma rhe_neg: "round_half_even (- x) = - round_half_even x"
proof (cases "x \<in> \<int>")
  case True
  then obtain n where "x = of_int n" by (auto elim: Ints_cases)
  then have "- x = of_int (- n)" by simp
  then show ?thesis using \<open>x = of_int n\<close> by (simp only: rhe_of_int)
next
  case False
  define f where "f = \<lfloor>x\<rfloor>"
  have ne: "of_int f \<noteq> x" using False unfolding f_def by (metis Ints_of_int)
  have fx: "of_int f < x" "x < of_int f + 1" using ne unfolding f_def by linarith+
  have fm: "\<lfloor>- x\<rfloor> = - f - 1" using fx by linarith
  have dm: "- x - of_int (- f - 1) = 1 - (x - of_int f)" by simp
  show ?thesis
    unfolding round_half_even_def Let_def fm dm f_def[symmetric]
    by auto
qed

lemma fl_zero [simp]: "fl 0 = 0"
  by (simp add: fl_def)

lemma fl_neg: "fl (- x) = - fl x"
  by (simp add: fl_def Let_def rhe_neg)

lemma fl_scaled:
  assumes "0 < x"
  shows "pow2 52 \<le> x / pow2 (ilog2 x - 52)" "x / pow2 (ilog2 x - 52) < pow2 53"
proof -
  have a: "pow2 (ilog2 x) = pow2 52 * pow2 (ilog2 x - 52)"
    using pow2_add[of 52 "ilog2 x - 52"] by simp
  have "ilog2 x + 1 = 53 + (ilog2 x - 52)" by simp
  then have b: "pow2 (ilog2 x + 1) = pow2 53 * pow2 (ilog2 x - 52)"
    by (simp only: pow2_add)
  show "pow2 52 \<le> x / pow2 (ilog2 x - 52)"
    using ilog2_bounds(1)[OF assms] a by (simp add: pos_le_divide_eq)
  show "x / pow2 (ilog2 x - 52) < pow2 53"
    using ilog2_bounds(2)[OF assms] b by (simp add: pos_divide_less_eq)
qed

lemma pow2_52: "pow2 52 = of_int (2 ^ 52)" and pow2_53: "pow2 53 = of_int (2 ^ 53)"
  by (simp_all add: pow2_def)

lemma fl_pos_bounds:
  assumes "0 < x"
  shows "pow2 (ilog2 x) \<le> fl x" "fl x \<le> pow2 (ilog2 x + 1)"
proof -
  define u where "u = pow2 (ilog2 x - 52)"
  have u: "0 < u" by (simp add: u_def)
  have f: "fl x = of_int (round_half_even (x / u)) * u"
    using assms by (simp add: fl_def Let_def u_def)
  have "round_half_even (of_int (2 ^ 52)) \<le> round_half_even (x / u)"
    using fl_scaled(1)[OF assms] unfolding u_def pow2_52 by (rule rhe_mono)
  then have lo: "pow2 52 \<le> of_int (round_half_even (x / u))"
    unfolding pow2_52 rhe_of_int by linarith
  have "round_half_even (x / u) \<le> round_half_even (of_int (2 ^ 53))"
    using fl_scaled(2)[OF assms] unfolding u_def pow2_53 by (intro rhe_mono) simp
  then have hi: "of_int (round_half_even (x / u)) \<le> pow2 53"
    unfolding pow2_53 rhe_of_int by linarith
  have a: "pow2 (ilog2 x) = pow2 52 * u"
    using pow2_add[of 52 "ilog2 x - 52"] by (simp add: u_def)
  have "ilog2 x + 1 = 53 + (ilog2 x - 52)" by simp
  then have b: "pow2 (ilog2 x + 1) = pow2 53 * u"
    unfolding u_def by (simp only: pow2_add)
  show "pow2 (ilog2 x) \<le> fl x" unfolding a f using lo u by simp
  show "fl x \<le> pow2 (ilog2 x + 1)" unfolding b f using hi u by simp
qed

lemma fl_pos: "0 < x \<Longrightarrow> 0 < fl x"
  using fl_pos_bounds(1)[of x] pow2_pos[of "ilog2 x"] by linarith

lemma fl_nonneg: "0 \<le> x \<Longrightarrow> 0 \<le> fl x"
  using fl_pos[of x] by (cases "x = 0") auto

lemma fl_mono_pos:
  assumes "0 < x" "x \<le> y"
  shows "fl x \<le> fl y"
proof (cases "ilog2 x = ilog2 y")
  case True
  define u where "u = pow2 (ilog2 y - 52)"
  have u: "0 < u" by (simp add: u_def)
  have "x / u \<le> y / u" using assms u by (simp add: divide_right_mono)
  then have "round_half_even (x / u) \<le> round_half_even (y / u)" by (rule rhe_mono)
  then have "of_int (round_half_even (x / u)) * u \<le> of_int (round_half_even (y / u)) * u"
    using u by simp
  then show ?thesis using assms True by (simp add: fl_def Let_def u_def)
next
  case False
  with ilog2_mono[OF assms] have "ilog2 x + 1 \<le> ilog2 y" by simp
  then have "pow2 (ilog2 x + 1) \<le> pow2 (ilog2 y)" by (rule pow2_mono)
  moreover have "fl x \<le> pow2 (ilog2 x + 1)" using assms by (intro fl_pos_bounds) simp
  moreover have "pow2 (ilog2 y) \<le> fl y" using assms by (intro fl_pos_bounds) simp
  ultimately show ?thesis by linarith
qed

lemma fl_mono:
  assumes "x \<le> y"
  shows "fl x \<le> fl y"
proof -
  consider "0 < x" | "x \<le> 0" "0 \<le> y" | "y < 0" by linarith
  then show ?thesis
  proof cases
    case 1 then show ?thesis using assms by (rule fl_mono_pos)
  next
    case 2
    have "fl x \<le> 0" using fl_nonneg[of "- x"] 2(1) by (simp add: fl_neg)
    moreover have "0 \<le> fl y" using 2(2) by (rule fl_nonneg)
    ultimately show ?thesis by linarith
  next
    case 3
    have "fl (- y) \<le> fl (- x)" using 3 assms by (intro fl_mono_pos) auto
    then show ?thesis by (simp add: fl_neg)
  qed
qed

lemma fl_exact_pos_int:
  assumes "0 < n" "n \<le> 2 ^ 53"
  shows "fl (of_int n) = of_int n"
proof -
  define x :: real where "x = of_int n"
  have x: "0 < x" using assms by (simp add: x_def)
  define e where "e = ilog2 x"
  define u where "u = pow2 (e - 52)"
  have u: "0 < u" by (simp add: u_def)
  have f: "fl x = of_int (round_half_even (x / u)) * u"
    using x by (simp add: fl_def Let_def u_def e_def)
  have "\<exists>k. x / u = of_int k"
  proof (cases "e \<le> 52")
    case True
    show ?thesis
    proof (cases "e = 52")
      case True
      then have "x / u = of_int n" by (simp add: u_def pow2_def x_def)
      then show ?thesis by blast
    next
      case False
      with \<open>e \<le> 52\<close> have "u = inverse (2 ^ nat (52 - e))"
        by (simp add: u_def pow2_def)
      then have "x / u = of_int (n * 2 ^ nat (52 - e))"
        by (simp add: x_def divide_inverse)
      then show ?thesis by blast
    qed
  next
    case False
    then have "53 \<le> e" by simp
    then have "pow2 53 \<le> pow2 e" by (rule pow2_mono)
    moreover have "pow2 e \<le> x" unfolding e_def using x by (rule ilog2_bounds)
    moreover have "x \<le> pow2 53" using assms(2) unfolding x_def pow2_53 by (simp only: of_int_le_iff)
    ultimately have xe: "x = pow2 53" "pow2 e = pow2 53" by linarith+
    then have "e = 53" using pow2_less_iff[of e 53] pow2_less_iff[of 53 e] by linarith
    then have "x / u = of_int (2 ^ 52)" by (simp add: xe u_def pow2_def)
    then show ?thesis by blast
  qed
  then obtain k where "x / u = of_int k" by blast
  then have "fl x = (x / u) * u" by (simp add: f)
  then show ?thesis using u by (simp add: x_def)
qed

lemma fl_of_int:
  assumes "\<bar>n\<bar> \<le> 2 ^ 53"
  shows "fl (of_int n) = of_int n"
proof -
  consider "n = 0" | "0 < n" | "n < 0" by linarith
  then show ?thesis
  proof cases
    case 1 then show ?thesis by simp
  next
    case 2 then show ?thesis using assms by (intro fl_exact_pos_int) auto
  next
    case 3
    then have "fl (of_int (- n)) = of_int (- n)" using assms by (intro fl_exact_pos_int) auto
    then show ?thesis by (simp add: fl_neg)
  qed
qed

lemma fl_error:
  "\<bar>fl x - x\<bar> \<le> \<bar>x\<bar> / 2 ^ 53"
proof -
  have pos: "\<bar>fl x - x\<bar> \<le> x / 2 ^ 53" if x: "0 < x" for x
  proof -
    define u where "u = pow2 (ilog2 x - 52)"
    have u: "0 < u" by (simp add: u_def)
    have f: "fl x = of_int (round_half_even (x / u)) * u"
      using x by (simp add: fl_def Let_def u_def)
    have "\<bar>of_int (round_half_even (x / u)) - x / u\<bar> \<le> 1 / 2"
      using rhe_bounds[of "x / u"] by linarith
    then have "\<bar>of_int (round_half_even (x / u)) - x / u\<bar> * u \<le> 1 / 2 * u"
      using u by (intro mult_right_mono) auto
    moreover have "\<bar>of_int (round_half_even (x / u)) - x / u\<bar> * u = \<bar>fl x - x\<bar>"
    proof -
      have "(of_int (round_half_even (x / u)) - x / u) * u = fl x - x"
        using u unfolding f by (simp add: left_diff_distrib)
      then have "\<bar>fl x - x\<bar> = \<bar>of_int (round_half_even (x / u)) - x / u\<bar> * \<bar>u\<bar>"
        by (simp only: abs_mult[symmetric])
      then show ?thesis using u by simp
    qed
    ultimately have 1: "\<bar>fl x - x\<bar> \<le> u / 2" by simp
    have "pow2 52 * u \<le> x" using fl_scaled(1)[OF x] u unfolding u_def by (simp add: pos_le_divide_eq)
    then have "u \<le> x / 2 ^ 52" by (simp add: pow2_def field_simps)
    then have "u / 2 \<le> x / 2 ^ 53" by simp
    with 1 show ?thesis by linarith
  qed
  consider "x = 0" | "0 < x" | "x < 0" by linarith
  then show ?thesis
  proof cases
    case 1 then show ?thesis by simp
  next
    case 2 then show ?thesis using pos[of x] by simp
  next
    case 3
    then have "\<bar>fl (- x) - (- x)\<bar> \<le> (- x) / 2 ^ 53" by (intro pos) simp
    then show ?thesis using 3 by (simp add: fl_neg)
  qed
qed

section \<open>The percentile lines of shot3\<close>

text \<open>
  C1: the chart renderer is claimed to draw three dashed percentile lines with their
  labels and then to complete the screenshot. In the code the loop at line 381 unpacks
  each two-element tuple of the table into three names: the first iteration raises
  \<open>ValueError\<close>, no line is drawn, and \<open>shot3\<close> raises for every canvas size and
  every remainder of the function.
\<close>

theorem shot3_percentile_unpack_raises:
  "percentile_lines chart_x chart_w y chart_h s percentile_table = Inl ValueError
   \<and> shot3_chart math_exp w s margin y = Inl ValueError
   \<and> shot3 math_exp rest (1290, 2796) = Inl ValueError
   \<and> shot3 math_exp rest (2048, 2732) = Inl ValueError
   \<and> shot3 math_exp rest sz = Inl ValueError"
  by (simp add: shot3_def shot3_chart_def Let_def percentile_table_def unpack3_def
           split: prod.splits)

section \<open>Bounds on scaled lengths\<close>

lemma py_int_le: "0 \<le> x \<Longrightarrow> of_int (py_int x) \<le> x"
  by (simp add: py_int_def)

lemma py_int_nonneg: "0 \<le> x \<Longrightarrow> 0 \<le> py_int x"
  by (simp add: py_int_def)

lemma py_int_mono:
  assumes "x \<le> y"
  shows "py_int x \<le> py_int y"
proof (cases "0 \<le> x")
  case True
  then show ?thesis using assms by (simp add: py_int_def floor_mono)
next
  case False
  show ?thesis
  proof (cases "0 \<le> y")
    case True
    have "\<lceil>x\<rceil> \<le> 0" using False by (simp add: ceiling_le_iff)
    moreover have "0 \<le> \<lfloor>y\<rfloor>" using True by simp
    ultimately have "\<lceil>x\<rceil> \<le> \<lfloor>y\<rfloor>" by linarith
    then show ?thesis using False True by (simp add: py_int_def)
  next
    case y: False
    then show ?thesis using False assms by (simp add: py_int_def ceiling_mono)
  qed
qed

lemma fl_error_nonneg:
  assumes "0 \<le> x"
  shows "fl x \<le> x + x / 2 ^ 53" and "x - x / 2 ^ 53 \<le> fl x"
proof -
  have "\<bar>fl x - x\<bar> \<le> x / 2 ^ 53" using fl_error[of x] assms by simp
  then show "fl x \<le> x + x / 2 ^ 53" and "x - x / 2 ^ 53 \<le> fl x" by linarith+
qed

lemma fl_upper: "0 \<le> x \<Longrightarrow> fl x \<le> x * (1 + 1 / 2 ^ 53)"
  using fl_error_nonneg(1)[of x] by (simp add: distrib_left)

lemma fl_lower: "0 \<le> x \<Longrightarrow> x * (1 - 1 / 2 ^ 53) \<le> fl x"
  using fl_error_nonneg(2)[of x] by (simp add: right_diff_distrib)

lemma imulf_upper:
  assumes "0 \<le> n" "0 \<le> k"
  shows "imulf n k \<le> of_int n * k * (1 + 1 / 2 ^ 53) * (1 + 1 / 2 ^ 53)"
proof -
  have a: "0 \<le> float_of_int n" unfolding float_of_int_def using assms by (intro fl_nonneg) simp
  have b: "float_of_int n \<le> of_int n * (1 + 1 / 2 ^ 53)"
    unfolding float_of_int_def using assms by (intro fl_upper) simp
  have "imulf n k \<le> (float_of_int n * k) * (1 + 1 / 2 ^ 53)"
    unfolding imulf_def fmul_def using a assms by (intro fl_upper) simp
  also have "\<dots> \<le> (of_int n * (1 + 1 / 2 ^ 53) * k) * (1 + 1 / 2 ^ 53)"
    using b assms by (intro mult_right_mono) auto
  finally show ?thesis by (simp add: mult_ac)
qed

lemma imulf_nonneg: "0 \<le> n \<Longrightarrow> 0 \<le> k \<Longrightarrow> 0 \<le> imulf n k"
  unfolding imulf_def fmul_def float_of_int_def
  by (intro fl_nonneg mult_nonneg_nonneg) simp_all

lemma bezel_fits:
  assumes w: "11 \<le> w" and k: "0 \<le> k" "k \<le> 3 / 100"
  shows "2 * max (py_int (imulf w k)) 5 < w"
proof -
  have w0: "0 \<le> w" using w by simp
  have e: "(1 + 1 / 2 ^ 53) * (1 + 1 / 2 ^ 53) \<le> (2::real)" by simp
  have "imulf w k \<le> of_int w * k * (1 + 1 / 2 ^ 53) * (1 + 1 / 2 ^ 53)"
    using w0 k(1) by (rule imulf_upper)
  also have "\<dots> = (of_int w * k) * ((1 + 1 / 2 ^ 53) * (1 + 1 / 2 ^ 53))" by simp
  also have "\<dots> \<le> (of_int w * k) * 2"
    using w0 k(1) e by (intro mult_left_mono) auto
  also have "\<dots> \<le> (of_int w * (3 / 100)) * 2"
    using w0 k(2) by (intro mult_right_mono mult_left_mono) auto
  finally have "imulf w k \<le> of_int w * (6 / 100)" by simp
  moreover have "of_int (py_int (imulf w k)) \<le> imulf w k"
    using w0 k(1) by (intro py_int_le imulf_nonneg)
  ultimately have "real_of_int (py_int (imulf w k)) \<le> of_int w * (6 / 100)" by linarith
  then have "real_of_int (2 * py_int (imulf w k)) < of_int w" using w by simp
  then have "2 * py_int (imulf w k) < w" by (simp only: of_int_less_iff)
  then show ?thesis using w by simp
qed

lemma phone_factor: "0 \<le> fl 0.022 \<and> fl 0.022 \<le> 3 / 100"
  by code_simp

lemma tablet_factor: "0 \<le> fl 0.018 \<and> fl 0.018 \<le> 3 / 100"
  by code_simp

section \<open>The screen region of a device frame\<close>

lemma iphone_geometry_fields:
  assumes "iphone_geometry (sw, sh) fw = Inr g"
  shows "bezel g = max (py_int (imulf fw (fl 0.022))) 5"
    and "inner_w g = fw - bezel g * 2" and "frame_h g = inner_h g + bezel g * 2"
    and "corner_outer g = py_int (imulf fw (fl 0.082))"
    and "corner_inner g = corner_outer g - bezel g"
  using assms by (auto simp: iphone_geometry_def Let_def split: if_splits)

lemma ipad_geometry_fields:
  assumes "ipad_geometry (sw, sh) fw = Inr g"
  shows "bezel g = max (py_int (imulf fw (fl 0.018))) 5"
    and "inner_w g = fw - bezel g * 2" and "frame_h g = inner_h g + bezel g * 2"
    and "corner_outer g = py_int (imulf fw (fl 0.028))"
    and "corner_inner g = max (corner_outer g - bezel g) 2"
  using assms by (auto simp: ipad_geometry_def Let_def split: if_splits)

lemma iphone_boxes:
  "screen_box (iphone_ops g fw) =
     Some ((4 + bezel g, 4 + bezel g), (4 + bezel g + inner_w g - 1, 4 + bezel g + inner_h g - 1))"
  "body_box (iphone_ops g fw) = Some ((4, 4), (4 + fw - 1, 4 + frame_h g - 1))"
  by (simp_all add: iphone_ops_def Let_def)

lemma ipad_boxes:
  "screen_box (ipad_ops g fw) =
     Some ((bezel g, bezel g), (bezel g + inner_w g - 1, bezel g + inner_h g - 1))"
  "body_box (ipad_ops g fw) = Some ((0, 0), (fw - 1, frame_h g - 1))"
  by (simp_all add: ipad_ops_def Let_def)

lemma scaled_nonneg: "0 \<le> n \<Longrightarrow> 0 \<le> c \<Longrightarrow> 0 \<le> py_int (imulf n (fl c))"
  by (intro py_int_nonneg imulf_nonneg fl_nonneg)

lemma imulf_mono_left:
  assumes "m \<le> n" "0 \<le> k"
  shows "imulf m k \<le> imulf n k"
proof -
  have "float_of_int m \<le> float_of_int n"
    unfolding float_of_int_def using assms(1) by (intro fl_mono) simp
  then have "float_of_int m * k \<le> float_of_int n * k"
    using assms(2) by (rule mult_right_mono)
  then show ?thesis unfolding imulf_def fmul_def by (rule fl_mono)
qed

lemma imulf_mono_right:
  assumes "0 \<le> n" "j \<le> k"
  shows "imulf n j \<le> imulf n k"
proof -
  have "0 \<le> float_of_int n"
    unfolding float_of_int_def using assms(1) by (intro fl_nonneg) simp
  then have "float_of_int n * j \<le> float_of_int n * k"
    using assms(2) by (rule mult_left_mono[rotated])
  then show ?thesis unfolding imulf_def fmul_def by (rule fl_mono)
qed

text \<open>No drawing call of the phone frame raises when the geometry is sound.\<close>

lemma iphone_ops_ok:
  assumes "5 \<le> bezel g" "1 \<le> inner_w g" "1 \<le> inner_h g"
    and "inner_w g = fw - bezel g * 2" "frame_h g = inner_h g + bezel g * 2"
    and "0 \<le> corner_inner g" "corner_inner g = corner_outer g - bezel g"
  shows "\<not> list_ex op_error (iphone_ops g fw)"
proof -
  have fw: "0 \<le> fw" "0 \<le> frame_h g" using assms by simp_all
  have di_w: "0 \<le> py_int (imulf fw (fl 0.23))" using fw by (intro scaled_nonneg) simp_all
  have di_h: "0 \<le> py_int (imulf fw (fl 0.052))" using fw by (intro scaled_nonneg) simp_all
  have lens_r: "0 \<le> py_int (imulf (py_int (imulf fw (fl 0.052))) (fl 0.22))"
    using di_h by (rule scaled_nonneg) simp
  have btn_h: "0 \<le> py_int (imulf (frame_h g) (fl 0.048))"
    using fw by (intro scaled_nonneg) simp_all
  have vol_h: "0 \<le> py_int (imulf (frame_h g) (fl 0.033))"
    using fw by (intro scaled_nonneg) simp_all
  have act_h: "0 \<le> py_int (imulf (frame_h g) (fl 0.018))"
    using fw by (intro scaled_nonneg) simp_all
  show ?thesis
    using assms di_w di_h lens_r btn_h vol_h act_h
    by (auto simp: iphone_ops_def Let_def)
qed

lemma ipad_ops_ok:
  assumes "5 \<le> bezel g" "1 \<le> inner_w g" "1 \<le> inner_h g"
    and "inner_w g = fw - bezel g * 2" "frame_h g = inner_h g + bezel g * 2"
    and "2 \<le> corner_outer g" "0 \<le> corner_inner g"
  shows "\<not> list_ex op_error (ipad_ops g fw)"
  using assms by (auto simp: ipad_ops_def Let_def)

lemma phone_corner_61: "py_int (imulf 61 (fl 0.082)) = 5" by code_simp
lemma phone_corner_60: "py_int (imulf 60 (fl 0.082)) = 4" by code_simp
lemma tablet_corner_72: "py_int (imulf 72 (fl 0.028)) = 2" by code_simp
lemma tablet_corner_71: "py_int (imulf 71 (fl 0.028)) = 1" by code_simp
lemma factor_order: "0 \<le> fl 0.022 \<and> fl 0.022 \<le> fl 0.082 \<and> 0 \<le> fl 0.028" by code_simp

text \<open>From frame width 61 on the inner corner radius of the phone is not negative.\<close>

lemma phone_corner_ge_bezel:
  assumes "61 \<le> fw"
  shows "max (py_int (imulf fw (fl 0.022))) 5 \<le> py_int (imulf fw (fl 0.082))"
proof -
  have "imulf 61 (fl 0.082) \<le> imulf fw (fl 0.082)"
    using assms factor_order by (intro imulf_mono_left) auto
  then have "py_int (imulf 61 (fl 0.082)) \<le> py_int (imulf fw (fl 0.082))"
    by (rule py_int_mono)
  then have a: "5 \<le> py_int (imulf fw (fl 0.082))" by (simp only: phone_corner_61)
  have "imulf fw (fl 0.022) \<le> imulf fw (fl 0.082)"
    using assms factor_order by (intro imulf_mono_right) auto
  then have "py_int (imulf fw (fl 0.022)) \<le> py_int (imulf fw (fl 0.082))"
    by (rule py_int_mono)
  with a show ?thesis by simp
qed

lemma phone_corner_small:
  assumes "fw < 61"
  shows "py_int (imulf fw (fl 0.082)) \<le> 4"
proof -
  have "imulf fw (fl 0.082) \<le> imulf 60 (fl 0.082)"
    using assms factor_order by (intro imulf_mono_left) auto
  then have "py_int (imulf fw (fl 0.082)) \<le> py_int (imulf 60 (fl 0.082))"
    by (rule py_int_mono)
  then show ?thesis by (simp only: phone_corner_60)
qed

lemma tablet_corner_large:
  assumes "72 \<le> fw"
  shows "2 \<le> py_int (imulf fw (fl 0.028))"
proof -
  have "imulf 72 (fl 0.028) \<le> imulf fw (fl 0.028)"
    using assms factor_order by (intro imulf_mono_left) auto
  then have "py_int (imulf 72 (fl 0.028)) \<le> py_int (imulf fw (fl 0.028))"
    by (rule py_int_mono)
  then show ?thesis by (simp only: tablet_corner_72)
qed

lemma tablet_corner_small:
  assumes "fw < 72"
  shows "py_int (imulf fw (fl 0.028)) \<le> 1"
proof -
  have "imulf fw (fl 0.028) \<le> imulf 71 (fl 0.028)"
    using assms factor_order by (intro imulf_mono_left) auto
  then have "py_int (imulf fw (fl 0.028)) \<le> py_int (imulf 71 (fl 0.028))"
    by (rule py_int_mono)
  then show ?thesis by (simp only: tablet_corner_71)
qed

text \<open>Below these widths a radius is negative and the builder raises.\<close>

lemma iphone_raises_below_61:
  assumes "fw < 61"
  shows "isl (build_iphone_frame (sw, sh) fw)"
proof (cases "iphone_geometry (sw, sh) fw")
  case (Inl e)
  then show ?thesis by (simp add: build_iphone_frame_def)
next
  case (Inr g)
  note f = iphone_geometry_fields[OF Inr]
  have "corner_outer g \<le> 4" unfolding f(4) using assms by (rule phone_corner_small)
  moreover have "5 \<le> bezel g" unfolding f(1) by simp
  ultimately have "corner_inner g < 0" unfolding f(5) by simp
  then have "list_ex op_error (iphone_ops g fw)"
    by (simp add: iphone_ops_def Let_def)
  then show ?thesis by (simp add: build_iphone_frame_def Inr)
qed

lemma ipad_raises_below_72:
  assumes "fw < 72"
  shows "isl (build_ipad_frame (sw, sh) fw)"
proof (cases "ipad_geometry (sw, sh) fw")
  case (Inl e)
  then show ?thesis by (simp add: build_ipad_frame_def)
next
  case (Inr g)
  note f = ipad_geometry_fields[OF Inr]
  have "corner_outer g \<le> 1" unfolding f(4) using assms by (rule tablet_corner_small)
  then have "list_ex op_error (ipad_ops g fw)"
    by (simp add: ipad_ops_def Let_def)
  then show ?thesis by (simp add: build_ipad_frame_def Inr)
qed

lemma iphone_raises_flat:
  assumes "iphone_geometry (sw, sh) fw = Inr g" "inner_h g < 1"
  shows "isl (build_iphone_frame (sw, sh) fw)"
proof -
  have "list_ex op_error (iphone_ops g fw)"
    using assms(2) by (simp add: iphone_ops_def Let_def)
  then show ?thesis by (simp add: build_iphone_frame_def assms(1))
qed

lemma ipad_raises_flat:
  assumes "ipad_geometry (sw, sh) fw = Inr g" "inner_h g < 1"
  shows "isl (build_ipad_frame (sw, sh) fw)"
proof -
  have "list_ex op_error (ipad_ops g fw)"
    using assms(2) by (simp add: ipad_ops_def Let_def)
  then show ?thesis by (simp add: build_ipad_frame_def assms(1))
qed

lemma iphone_frame_built:
  assumes w: "61 \<le> fw" and geo: "iphone_geometry (sw, sh) fw = Inr g" and ih: "1 \<le> inner_h g"
  shows "build_iphone_frame (sw, sh) fw =
           Inr \<lparr>img_size = (fw + 8, frame_h g + 8), img_ops = iphone_ops g fw\<rparr>"
    and "5 \<le> bezel g" and "1 \<le> inner_w g"
proof -
  note f = iphone_geometry_fields[OF geo]
  show b5: "5 \<le> bezel g" unfolding f(1) by simp
  have "2 * bezel g < fw"
    unfolding f(1) using w phone_factor by (intro bezel_fits) auto
  then show iw: "1 \<le> inner_w g" unfolding f(2) by simp
  have ci: "0 \<le> corner_inner g"
    unfolding f(5) f(4) f(1) using phone_corner_ge_bezel[OF w] by simp
  have ok: "\<not> list_ex op_error (iphone_ops g fw)"
    using b5 iw ih f(2) f(3) ci f(5) by (rule iphone_ops_ok)
  have "0 \<le> fw + 8" "0 \<le> frame_h g + 8" using w ih b5 unfolding f(3) by simp_all
  then show "build_iphone_frame (sw, sh) fw =
           Inr \<lparr>img_size = (fw + 8, frame_h g + 8), img_ops = iphone_ops g fw\<rparr>"
    using ok by (simp add: build_iphone_frame_def geo)
qed

lemma ipad_frame_built:
  assumes w: "72 \<le> fw" and geo: "ipad_geometry (sw, sh) fw = Inr g" and ih: "1 \<le> inner_h g"
  shows "build_ipad_frame (sw, sh) fw =
           Inr \<lparr>img_size = (fw, frame_h g), img_ops = ipad_ops g fw\<rparr>"
    and "5 \<le> bezel g" and "1 \<le> inner_w g"
proof -
  note f = ipad_geometry_fields[OF geo]
  show b5: "5 \<le> bezel g" unfolding f(1) by simp
  have "2 * bezel g < fw"
    unfolding f(1) using w tablet_factor by (intro bezel_fits) auto
  then show iw: "1 \<le> inner_w g" unfolding f(2) by simp
  have co: "2 \<le> corner_outer g" unfolding f(4) using w by (rule tablet_corner_large)
  have ci: "0 \<le> corner_inner g" unfolding f(5) by simp
  have ok: "\<not> list_ex op_error (ipad_ops g fw)"
    using b5 iw ih f(2) f(3) co ci by (rule ipad_ops_ok)
  have "0 \<le> fw" "0 \<le> frame_h g" using w ih b5 unfolding f(3) by simp_all
  then show "build_ipad_frame (sw, sh) fw =
           Inr \<lparr>img_size = (fw, frame_h g), img_ops = ipad_ops g fw\<rparr>"
    using ok by (simp add: build_ipad_frame_def geo)
qed

text \<open>
  C2 (amended): \<open>build_iphone_frame\<close> returns an image for every frame width of at least
  61, and \<open>build_ipad_frame\<close> for every frame width of at least 72, whenever the scaled
  height \<open>inner_h\<close> of the screenshot comes out at least 1; in that image the box of the
  pasted screenshot is not empty and keeps the bezel, which is at least 5 pixels, to the
  device body on all four sides, and the body lies within the image. Below these widths
  (a corner radius is negative there) and for a scaled height below 1 the builders raise.
\<close>

theorem frame_screen_inside_body:
  "(61 \<le> frame_w \<and> iphone_geometry (sw, sh) frame_w = Inr g \<and> 1 \<le> inner_h g \<longrightarrow>
      (\<exists>fr inner outer.
         build_iphone_frame (sw, sh) frame_w = Inr fr \<and>
         img_size fr = (frame_w + 8, frame_h g + 8) \<and>
         screen_box (img_ops fr) = Some inner \<and> body_box (img_ops fr) = Some outer \<and>
         5 \<le> bezel g \<and> inside_with_margin (bezel g) inner outer \<and>
         inside_with_margin 4 outer ((0, 0), (frame_w + 8 - 1, frame_h g + 8 - 1))))
   \<and>
   (72 \<le> frame_w \<and> ipad_geometry (sw, sh) frame_w = Inr g \<and> 1 \<le> inner_h g \<longrightarrow>
      (\<exists>fr inner outer.
         build_ipad_frame (sw, sh) frame_w = Inr fr \<and>
         img_size fr = (frame_w, frame_h g) \<and>
         screen_box (img_ops fr) = Some inner \<and> body_box (img_ops fr) = Some outer \<and>
         5 \<le> bezel g \<and> inside_with_margin (bezel g) inner outer \<and>
         inside_with_margin 0 outer ((0, 0), (frame_w - 1, frame_h g - 1))))
   \<and> (frame_w < 61 \<longrightarrow> isl (build_iphone_frame (sw, sh) frame_w))
   \<and> (frame_w < 72 \<longrightarrow> isl (build_ipad_frame (sw, sh) frame_w))
   \<and> (iphone_geometry (sw, sh) frame_w = Inr g \<and> inner_h g < 1 \<longrightarrow>
        isl (build_iphone_frame (sw, sh) frame_w))
   \<and> (ipad_geometry (sw, sh) frame_w = Inr g \<and> inner_h g < 1 \<longrightarrow>
        isl (build_ipad_frame (sw, sh) frame_w))"
proof (intro conjI impI)
  assume a: "61 \<le> frame_w \<and> iphone_geometry (sw, sh) frame_w = Inr g \<and> 1 \<le> inner_h g"
  then have w: "61 \<le> frame_w" and geo: "iphone_geometry (sw, sh) frame_w = Inr g"
    and ih: "1 \<le> inner_h g" by simp_all
  note f = iphone_geometry_fields[OF geo]
  note b = iphone_frame_built[OF w geo ih]
  show "\<exists>fr inner outer.
         build_iphone_frame (sw, sh) frame_w = Inr fr \<and>
         img_size fr = (frame_w + 8, frame_h g + 8) \<and>
         screen_box (img_ops fr) = Some inner \<and> body_box (img_ops fr) = Some outer \<and>
         5 \<le> bezel g \<and> inside_with_margin (bezel g) inner outer \<and>
         inside_with_margin 4 outer ((0, 0), (frame_w + 8 - 1, frame_h g + 8 - 1))"
    unfolding b(1) using b(2) b(3) ih f(2) f(3) by (simp add: iphone_boxes)
next
  assume a: "72 \<le> frame_w \<and> ipad_geometry (sw, sh) frame_w = Inr g \<and> 1 \<le> inner_h g"
  then have w: "72 \<le> frame_w" and geo: "ipad_geometry (sw, sh) frame_w = Inr g"
    and ih: "1 \<le> inner_h g" by simp_all
  note f = ipad_geometry_fields[OF geo]
  note b = ipad_frame_built[OF w geo ih]
  show "\<exists>fr inner outer.
         build_ipad_frame (sw, sh) frame_w = Inr fr \<and>
         img_size fr = (frame_w, frame_h g) \<and>
         screen_box (img_ops fr) = Some inner \<and> body_box (img_ops fr) = Some outer \<and>
         5 \<le> bezel g \<and> inside_with_margin (bezel g) inner outer \<and>
         inside_with_margin 0 outer ((0, 0), (frame_w - 1, frame_h g - 1))"
    unfolding b(1) using b(2) b(3) ih f(2) f(3) by (simp add: ipad_boxes)
next
  assume "frame_w < 61"
  then show "isl (build_iphone_frame (sw, sh) frame_w)" by (rule iphone_raises_below_61)
next
  assume "frame_w < 72"
  then show "isl (build_ipad_frame (sw, sh) frame_w)" by (rule ipad_raises_below_72)
next
  assume "iphone_geometry (sw, sh) frame_w = Inr g \<and> inner_h g < 1"
  then show "isl (build_iphone_frame (sw, sh) frame_w)" by (auto intro: iphone_raises_flat)
next
  assume "ipad_geometry (sw, sh) frame_w = Inr g \<and> inner_h g < 1"
  then show "isl (build_ipad_frame (sw, sh) frame_w)" by (auto intro: ipad_raises_flat)
qed

lemma bezel_1: "py_int (imulf 1 (fl 0.022)) = 0" by code_simp
lemma bezel_1t: "py_int (imulf 1 (fl 0.018)) = 0" by code_simp
lemma inner_h_1: "py_int (imulf 200 (truediv (- 9) 100)) = - 18" by code_simp
lemma corner_1: "py_int (imulf 1 (fl 0.082)) = 0" by code_simp
lemma corner_1t: "py_int (imulf 1 (fl 0.028)) = 0" by code_simp

lemma iphone_geometry_1:
  "iphone_geometry (100, 200) 1 =
     Inr \<lparr>bezel = 5, inner_w = - 9, inner_h = - 18, frame_h = - 8,
          corner_outer = 0, corner_inner = - 5\<rparr>"
  apply (simp only: iphone_geometry_def Let_def prod.case bezel_1 corner_1)
  apply (simp add: inner_h_1)
  done

lemma ipad_geometry_1:
  "ipad_geometry (100, 200) 1 =
     Inr \<lparr>bezel = 5, inner_w = - 9, inner_h = - 18, frame_h = - 8,
          corner_outer = 0, corner_inner = 2\<rparr>"
  apply (simp only: ipad_geometry_def Let_def prod.case bezel_1t corner_1t)
  apply (simp add: inner_h_1)
  done

lemma bezel_11: "py_int (imulf 11 (fl 0.022)) = 0" by code_simp
lemma bezel_11t: "py_int (imulf 11 (fl 0.018)) = 0" by code_simp
lemma inner_h_11: "py_int (imulf 200 (truediv 1 100)) = 2" by code_simp
lemma corner_11: "py_int (imulf 11 (fl 0.082)) = 0" by code_simp
lemma corner_11t: "py_int (imulf 11 (fl 0.028)) = 0" by code_simp

lemma iphone_geometry_11:
  "iphone_geometry (100, 200) 11 =
     Inr \<lparr>bezel = 5, inner_w = 1, inner_h = 2, frame_h = 12,
          corner_outer = 0, corner_inner = - 5\<rparr>"
  apply (simp only: iphone_geometry_def Let_def prod.case bezel_11 corner_11)
  apply (simp add: inner_h_11)
  done

lemma ipad_geometry_11:
  "ipad_geometry (100, 200) 11 =
     Inr \<lparr>bezel = 5, inner_w = 1, inner_h = 2, frame_h = 12,
          corner_outer = 0, corner_inner = 2\<rparr>"
  apply (simp only: ipad_geometry_def Let_def prod.case bezel_11t corner_11t)
  apply (simp add: inner_h_11)
  done

text \<open>
  C2 as stated fails: at frame width 1 the minimum bezel of 5 leaves an inner width of -9,
  and at frame width 11, where the inner region is 1 x 2, the chamfer radius is -1; both
  builders raise on a 100 x 200 screenshot instead of producing an image.
\<close>

theorem frame_width_1_counterexample:
  "build_iphone_frame (100, 200) 1 = Inl ValueError \<and>
   build_ipad_frame (100, 200) 1 = Inl ValueError \<and>
   iphone_geometry (100, 200) 1 =
     Inr \<lparr>bezel = 5, inner_w = - 9, inner_h = - 18, frame_h = - 8,
          corner_outer = 0, corner_inner = - 5\<rparr> \<and>
   build_iphone_frame (100, 200) 11 = Inl ValueError \<and>
   build_ipad_frame (100, 200) 11 = Inl ValueError \<and>
   iphone_geometry (100, 200) 11 =
     Inr \<lparr>bezel = 5, inner_w = 1, inner_h = 2, frame_h = 12,
          corner_outer = 0, corner_inner = - 5\<rparr>"
  by (simp add: build_iphone_frame_def build_ipad_frame_def iphone_geometry_1 ipad_geometry_1
      iphone_geometry_11 ipad_geometry_11 iphone_ops_def ipad_ops_def Let_def)

section \<open>Evaluation of the frame geometry\<close>

lemma bezel_300: "py_int (imulf 300 (fl 0.022)) = 6"
  by code_simp

lemma inner_h_300: "py_int (imulf 200 (truediv 288 100)) = 576"
  by code_simp

lemma corner_300: "py_int (imulf 300 (fl 0.082)) = 24"
  by code_simp

lemma iphone_geometry_300:
  "iphone_geometry (100, 200) 300 =
     Inr \<lparr>bezel = 6, inner_w = 288, inner_h = 576, frame_h = 588,
          corner_outer = 24, corner_inner = 18\<rparr>"
  apply (simp only: iphone_geometry_def Let_def prod.case bezel_300 corner_300)
  apply (simp add: inner_h_300)
  done

lemma build_iphone_frame_300:
  "build_iphone_frame (100, 200) 300 =
     Inr \<lparr>img_size = (308, 596),
          img_ops = iphone_ops \<lparr>bezel = 6, inner_w = 288, inner_h = 576, frame_h = 588,
                                corner_outer = 24, corner_inner = 18\<rparr> 300\<rparr>"
  using iphone_frame_built(1)[OF _ iphone_geometry_300] by simp

text \<open>
  C3: \<open>build_iphone_frame\<close> on a 100 x 200 screenshot with frame width 300 computes
  bezel 6, inner width 288, inner height 576 (frame height 588), and returns an image of
  width 308 and height 596, which is at least 584.
\<close>

theorem build_iphone_frame_100_200_300:
  "iphone_geometry (100, 200) 300 =
     Inr \<lparr>bezel = 6, inner_w = 288, inner_h = 576, frame_h = 588,
          corner_outer = 24, corner_inner = 18\<rparr>
   \<and> max (py_int (imulf 300 (fl 0.022))) 5 = 6
   \<and> (case build_iphone_frame (100, 200) 300 of
         Inl e \<Rightarrow> False
       | Inr fr \<Rightarrow> img_size fr = (308, 588 + 8) \<and> 584 \<le> snd (img_size fr))"
proof (intro conjI)
  show "iphone_geometry (100, 200) 300 =
     Inr \<lparr>bezel = 6, inner_w = 288, inner_h = 576, frame_h = 588,
          corner_outer = 24, corner_inner = 18\<rparr>"
    by (rule iphone_geometry_300)
  show "max (py_int (imulf 300 (fl 0.022))) 5 = 6"
    by (simp only: bezel_300)
  show "case build_iphone_frame (100, 200) 300 of
         Inl e \<Rightarrow> False
       | Inr fr \<Rightarrow> img_size fr = (308, 588 + 8) \<and> 584 \<le> snd (img_size fr)"
    by (simp add: build_iphone_frame_300)
qed

lemma bezel_300t: "py_int (imulf 300 (fl 0.018)) = 5" by code_simp
lemma inner_h_300t: "py_int (imulf 200 (truediv 290 100)) = 580" by code_simp
lemma corner_300t: "py_int (imulf 300 (fl 0.028)) = 8" by code_simp

lemma ipad_geometry_300:
  "ipad_geometry (100, 200) 300 =
     Inr \<lparr>bezel = 5, inner_w = 290, inner_h = 580, frame_h = 590,
          corner_outer = 8, corner_inner = 3\<rparr>"
  apply (simp only: ipad_geometry_def Let_def prod.case bezel_300t corner_300t)
  apply (simp add: inner_h_300t)
  done

text \<open>
  The hypotheses of C2 (amended) hold for a 100 x 200 screenshot: at frame width 300 both
  builders return the image, at frame width 11 both raise.
\<close>

theorem frame_screen_inside_body_witness:
  "(61::int) \<le> 300 \<and> (72::int) \<le> 300 \<and> (11::int) < 61 \<and> (11::int) < 72 \<and>
   iphone_geometry (100, 200) 300 =
     Inr \<lparr>bezel = 6, inner_w = 288, inner_h = 576, frame_h = 588,
          corner_outer = 24, corner_inner = 18\<rparr> \<and>
   (\<exists>fr inner outer.
      build_iphone_frame (100, 200) 300 = Inr fr \<and> img_size fr = (308, 596) \<and>
      screen_box (img_ops fr) = Some inner \<and> body_box (img_ops fr) = Some outer \<and>
      inside_with_margin 6 inner outer) \<and>
   ipad_geometry (100, 200) 300 =
     Inr \<lparr>bezel = 5, inner_w = 290, inner_h = 580, frame_h = 590,
          corner_outer = 8, corner_inner = 3\<rparr> \<and>
   (\<exists>fr inner outer.
      build_ipad_frame (100, 200) 300 = Inr fr \<and> img_size fr = (300, 590) \<and>
      screen_box (img_ops fr) = Some inner \<and> body_box (img_ops fr) = Some outer \<and>
      inside_with_margin 5 inner outer) \<and>
   isl (build_iphone_frame (100, 200) 11) \<and> isl (build_ipad_frame (100, 200) 11)"
proof -
  let ?p = "\<lparr>bezel = 6, inner_w = 288, inner_h = 576, frame_h = 588,
          corner_outer = 24, corner_inner = 18\<rparr>"
  let ?t = "\<lparr>bezel = 5, inner_w = 290, inner_h = 580, frame_h = 590,
          corner_outer = 8, corner_inner = 3\<rparr>"
  have hp: "61 \<le> (300::int) \<and> iphone_geometry (100, 200) 300 = Inr ?p \<and> 1 \<le> inner_h ?p"
    by (simp add: iphone_geometry_300)
  have ht: "72 \<le> (300::int) \<and> ipad_geometry (100, 200) 300 = Inr ?t \<and> 1 \<le> inner_h ?t"
    by (simp add: ipad_geometry_300)
  from frame_screen_inside_body[of 300 100 200 ?p] hp
  obtain fr inner outer where
    "build_iphone_frame (100, 200) 300 = Inr fr" "img_size fr = (300 + 8, frame_h ?p + 8)"
    "screen_box (img_ops fr) = Some inner" "body_box (img_ops fr) = Some outer"
    "inside_with_margin (bezel ?p) inner outer"
    by blast
  then have "build_iphone_frame (100, 200) 300 = Inr fr \<and> img_size fr = (308, 596) \<and>
      screen_box (img_ops fr) = Some inner \<and> body_box (img_ops fr) = Some outer \<and>
      inside_with_margin 6 inner outer"
    by simp
  then have p: "\<exists>fr inner outer.
      build_iphone_frame (100, 200) 300 = Inr fr \<and> img_size fr = (308, 596) \<and>
      screen_box (img_ops fr) = Some inner \<and> body_box (img_ops fr) = Some outer \<and>
      inside_with_margin 6 inner outer"
    by blast
  from frame_screen_inside_body[of 300 100 200 ?t] ht
  obtain fr inner outer where
    "build_ipad_frame (100, 200) 300 = Inr fr" "img_size fr = (300, frame_h ?t)"
    "screen_box (img_ops fr) = Some inner" "body_box (img_ops fr) = Some outer"
    "inside_with_margin (bezel ?t) inner outer"
    by blast
  then have "build_ipad_frame (100, 200) 300 = Inr fr \<and> img_size fr = (300, 590) \<and>
      screen_box (img_ops fr) = Some inner \<and> body_box (img_ops fr) = Some outer \<and>
      inside_with_margin 5 inner outer"
    by simp
  then have t: "\<exists>fr inner outer.
      build_ipad_frame (100, 200) 300 = Inr fr \<and> img_size fr = (300, 590) \<and>
      screen_box (img_ops fr) = Some inner \<and> body_box (img_ops fr) = Some outer \<and>
      inside_with_margin 5 inner outer"
    by blast
  have r: "isl (build_iphone_frame (100, 200) 11)" "isl (build_ipad_frame (100, 200) 11)"
    using frame_screen_inside_body[of 11 100 200 ?p] by simp_all
  have n: "(61::int) \<le> 300 \<and> (72::int) \<le> 300 \<and> (11::int) < 61 \<and> (11::int) < 72"
    by simp
  show ?thesis using n p t iphone_geometry_300 ipad_geometry_300 r by blast
qed

section \<open>Determinism of the seeded decoration\<close>

text \<open>
  C8: \<open>draw_soft_shapes\<close> and the bar chart of \<open>shot4\<close> reseed the generator with 42
  before they draw, so whatever state the generator is in when they are called
  (\<open>g1\<close>, \<open>g2\<close>), the same canvas dimensions give the same glows, bubbles (position,
  radius, opacity), bar-segment heights and final generator state.
\<close>

theorem seeded_decoration_deterministic:
  "draw_soft_shapes R cw ch base_colors g1 = draw_soft_shapes R cw ch base_colors g2
   \<and> shot4_bars R w g1 = shot4_bars R w g2"
  by (simp add: draw_soft_shapes_def shot4_bars_def)

section \<open>A missing source screenshot\<close>

lemma generate_effects_cong:
  assumes "files w1 = files w2" "rng w1 = rng w2"
  shows "effects (generate render s i od c d w1) = effects (generate render s i od c d w2)"
  using assms by (auto simp: generate_def effects_def Let_def split: sum.splits prod.splits)

lemma generate_all_effects_cong:
  "files w1 = files w2 \<Longrightarrow> rng w1 = rng w2 \<Longrightarrow>
   effects (generate_all render ss i od c d w1) = effects (generate_all render ss i od c d w2)"
proof (induction ss arbitrary: w1 w2)
  case Nil
  then show ?case by (simp add: effects_def)
next
  case (Cons s ss)
  have e: "effects (generate render s i od c d w1) = effects (generate render s i od c d w2)"
    using Cons.prems by (rule generate_effects_cong)
  show ?case
  proof (cases "generate render s i od c d w1")
    case (Inl err)
    with e have "generate render s i od c d w2 = Inl err"
      by (auto simp: effects_def split: sum.splits)
    with Inl show ?thesis by (simp add: effects_def)
  next
    case (Inr v1)
    with e obtain v2 where v2: "generate render s i od c d w2 = Inr v2"
      "files v1 = files v2" "rng v1 = rng v2"
      by (auto simp: effects_def split: sum.splits)
    with Inr Cons.IH[of v1 v2] show ?thesis by simp
  qed
qed

text \<open>
  C9: when the source screenshot does not exist, \<open>generate\<close> does not raise and never
  reaches the renderer (the result is the same for every \<open>render\<close>): it prints the
  warning and returns, leaving files and generator state as they were; and the batch
  leaves behind exactly what it would leave without that screen.
\<close>

theorem generate_missing_source_skips:
  assumes "files w (path_join input_dir (scr_file scr)) = None"
  shows "generate render scr input_dir output_dir canvas_size device_type w =
           Inr (w\<lparr>stdout := stdout w @ [Missing (path_join input_dir (scr_file scr))]\<rparr>)
       \<and> effects (generate render scr input_dir output_dir canvas_size device_type w) =
           Inr (files w, rng w)
       \<and> effects (generate_all render (scr # ss) input_dir output_dir canvas_size device_type w) =
           effects (generate_all render ss input_dir output_dir canvas_size device_type w)"
proof -
  have g: "generate render scr input_dir output_dir canvas_size device_type w =
           Inr (w\<lparr>stdout := stdout w @ [Missing (path_join input_dir (scr_file scr))]\<rparr>)"
    using assms by (simp add: generate_def Let_def)
  have "effects (generate_all render (scr # ss) input_dir output_dir canvas_size device_type w) =
         effects (generate_all render ss input_dir output_dir canvas_size device_type w)"
    by (simp add: g) (rule generate_all_effects_cong, simp_all)
  then show ?thesis by (simp add: g effects_def)
qed

text \<open>The hypothesis of C9 holds in a world without files.\<close>

theorem generate_missing_source_skips_witness:
  "files \<lparr>files = Map.empty, stdout = [], rng = (0::nat)\<rparr>
      (path_join ''Screenshots/iPhone''
         (scr_file \<lparr>scr_file = ''01_Onboarding.png'', scr_out = ''01_Welcome.png'',
            scr_headline = ''Your baby'', scr_subtitle = ''Every feeding'',
            scr_colors = [(255, 230, 240), (255, 190, 215), (250, 150, 190)],
            scr_tilt = 3\<rparr>)) = (None :: nat option)
   \<and> generate (\<lambda>fs p s c d g. Inl TypeError)
        \<lparr>scr_file = ''01_Onboarding.png'', scr_out = ''01_Welcome.png'',
            scr_headline = ''Your baby'', scr_subtitle = ''Every feeding'',
            scr_colors = [(255, 230, 240), (255, 190, 215), (250, 150, 190)],
            scr_tilt = 3\<rparr>
        ''Screenshots/iPhone'' ''Screenshots/Marketing_iPhone_6.7'' (1284, 2778) ''iphone''
        \<lparr>files = Map.empty, stdout = [], rng = (0::nat)\<rparr> =
      Inr \<lparr>files = (Map.empty :: path \<Rightarrow> nat option),
           stdout = [Missing ''Screenshots/iPhone/01_Onboarding.png''], rng = (0::nat)\<rparr>"
proof -
  let ?w = "\<lparr>files = Map.empty, stdout = [], rng = (0::nat)\<rparr> :: (nat, nat) world"
  let ?s = "\<lparr>scr_file = ''01_Onboarding.png'', scr_out = ''01_Welcome.png'',
            scr_headline = ''Your baby'', scr_subtitle = ''Every feeding'',
            scr_colors = [(255, 230, 240), (255, 190, 215), (250, 150, 190)],
            scr_tilt = 3\<rparr>"
  have h: "files ?w (path_join ''Screenshots/iPhone'' (scr_file ?s)) = None"
    by simp
  have "generate (\<lambda>fs p s c d g. Inl TypeError) ?s ''Screenshots/iPhone''
          ''Screenshots/Marketing_iPhone_6.7'' (1284, 2778) ''iphone'' ?w =
        Inr (?w\<lparr>stdout := stdout ?w @
               [Missing (path_join ''Screenshots/iPhone'' (scr_file ?s))]\<rparr>)"
    using generate_missing_source_skips[OF h, of "\<lambda>fs p s c d g. Inl TypeError"
        "''Screenshots/Marketing_iPhone_6.7''" "(1284, 2778)" "''iphone''" "[]"]
    by (rule conjunct1)
  then show ?thesis by (simp add: path_join_def)
qed

section \<open>The rows of the gradient\<close>

lemma fl_one [simp]: "fl 1 = 1"
  using fl_of_int[of 1] by simp

lemma float_of_int_exact: "\<bar>n\<bar> \<le> 2 ^ 53 \<Longrightarrow> float_of_int n = of_int n"
  by (simp add: float_of_int_def fl_of_int)

lemma float_of_int_small [simp]:
  "float_of_int 0 = 0" "float_of_int 1 = 1" "float_of_int 2 = 2" "float_of_int 3 = 3"
  by (simp_all add: float_of_int_exact)

lemma float_of_int_nonneg: "0 \<le> n \<Longrightarrow> 0 \<le> float_of_int n"
  unfolding float_of_int_def by (intro fl_nonneg) simp

lemma truediv_unit:
  assumes "0 \<le> y" "y < h"
  shows "0 \<le> truediv y h" "truediv y h \<le> 1"
proof -
  have q: "0 \<le> real_of_int y / real_of_int h" "real_of_int y / real_of_int h \<le> 1"
    using assms by simp_all
  show "0 \<le> truediv y h" unfolding truediv_def using q(1) by (rule fl_nonneg)
  have "fl (real_of_int y / real_of_int h) \<le> fl 1" using q(2) by (rule fl_mono)
  then show "truediv y h \<le> 1" by (simp add: truediv_def)
qed

lemma smoothstep_nonneg:
  assumes "0 \<le> t" "t \<le> 1"
  shows "0 \<le> smoothstep t"
proof -
  have "fl (2 * t) \<le> fl 2" using assms by (intro fl_mono) simp
  moreover have "fl 2 = 2" using fl_of_int[of 2] by simp
  ultimately have "0 \<le> 3 - imulf 2 t" by (simp add: imulf_def fmul_def)
  then have "0 \<le> fsub (float_of_int 3) (imulf 2 t)"
    unfolding fsub_def by (intro fl_nonneg) simp
  moreover have "0 \<le> fmul t t" unfolding fmul_def using assms by (intro fl_nonneg) simp
  ultimately show ?thesis
    unfolding smoothstep_def fmul_def[of "fmul t t"] by (intro fl_nonneg mult_nonneg_nonneg)
qed

lemma gradient_row_returns:
  assumes "2 \<le> length colors" "0 \<le> y" "y < h"
  shows "\<exists>c. gradient_row h colors y = Inr c"
proof -
  define n where "n = int (length colors)"
  define pos where "pos = fmul (smoothstep (truediv y h)) (float_of_int (n - 1))"
  define idx where "idx = min (py_int pos) (n - 2)"
  have n: "2 \<le> n" using assms(1) by (simp add: n_def)
  have "0 \<le> smoothstep (truediv y h)"
    using truediv_unit[OF assms(2,3)] by (intro smoothstep_nonneg)
  moreover have "0 \<le> float_of_int (n - 1)" using n by (intro float_of_int_nonneg) simp
  ultimately have "0 \<le> pos" unfolding pos_def fmul_def
    by (intro fl_nonneg mult_nonneg_nonneg)
  then have "0 \<le> py_int pos" by (rule py_int_nonneg)
  then have idx: "0 \<le> idx" "idx \<le> n - 2" using n by (simp_all add: idx_def)
  then obtain c1 c2 where "py_index colors idx = Inr c1" "py_index colors (idx + 1) = Inr c2"
    using n by (auto simp: py_index_def n_def)
  then have "gradient_row h colors y = Inr (lerp c1 c2 (fsub pos (float_of_int idx)))"
    by (simp add: gradient_row_def Let_def n_def[symmetric] pos_def[symmetric] idx_def[symmetric])
  then show ?thesis by blast
qed

lemma gradient_loop_result:
  assumes "\<forall>y\<in>set ys. \<exists>c. gradient_row h colors y = Inr c"
  shows "\<exists>img'. gradient_loop w h colors ys img = Inr img' \<and> cv_size img' = cv_size img \<and>
           (\<forall>x y. cv_pixel img' (x, y) =
              (if y \<in> set ys \<and> 0 \<le> x \<and> x \<le> w \<and> x < fst (cv_size img) \<and>
                  0 \<le> y \<and> y < snd (cv_size img)
               then with_alpha (projr (gradient_row h colors y))
               else cv_pixel img (x, y)))"
  using assms
proof (induction ys arbitrary: img)
  case Nil
  then show ?case by simp
next
  case (Cons y0 ys)
  then obtain c where c: "gradient_row h colors y0 = Inr c" by auto
  define img1 where "img1 = draw_hline img y0 0 w (with_alpha c)"
  have s1: "cv_size img1 = cv_size img" by (simp add: img1_def draw_hline_def)
  from Cons.IH[of img1] Cons.prems obtain img' where
    r: "gradient_loop w h colors ys img1 = Inr img'" "cv_size img' = cv_size img1"
    and p: "\<forall>x y. cv_pixel img' (x, y) =
              (if y \<in> set ys \<and> 0 \<le> x \<and> x \<le> w \<and> x < fst (cv_size img1) \<and>
                  0 \<le> y \<and> y < snd (cv_size img1)
               then with_alpha (projr (gradient_row h colors y))
               else cv_pixel img1 (x, y))"
    by auto
  have "gradient_loop w h colors (y0 # ys) img = Inr img'"
    using r(1) by (simp add: c img1_def)
  moreover have "cv_size img' = cv_size img" using r(2) s1 by simp
  moreover have "\<forall>x y. cv_pixel img' (x, y) =
              (if y \<in> set (y0 # ys) \<and> 0 \<le> x \<and> x \<le> w \<and> x < fst (cv_size img) \<and>
                  0 \<le> y \<and> y < snd (cv_size img)
               then with_alpha (projr (gradient_row h colors y))
               else cv_pixel img (x, y))"
    using p c unfolding s1 by (auto simp: img1_def draw_hline_def)
  ultimately show ?case by blast
qed

lemma create_soft_gradient_result:
  assumes "0 \<le> w" "0 \<le> h" "2 \<le> length colors"
  shows "\<exists>img. create_soft_gradient (w, h) colors = Inr img \<and> cv_size img = (w, h) \<and>
           (\<forall>x y. 0 \<le> x \<and> x < w \<and> 0 \<le> y \<and> y < h \<longrightarrow>
              cv_pixel img (x, y) = with_alpha (projr (gradient_row h colors y)))"
proof -
  define img0 where "img0 = \<lparr>cv_size = (w, h), cv_pixel = (\<lambda>p. (0, 0, 0, 0))\<rparr>"
  have new: "new_rgba (w, h) = Inr img0" using assms by (simp add: new_rgba_def img0_def)
  have rows: "\<forall>y\<in>set [0..h - 1]. \<exists>c. gradient_row h colors y = Inr c"
  proof
    fix y assume "y \<in> set [0..h - 1]"
    then have "0 \<le> y" "y < h" by auto
    with assms(3) show "\<exists>c. gradient_row h colors y = Inr c"
      by (intro gradient_row_returns)
  qed
  from gradient_loop_result[OF rows, of w img0] obtain img' where
    r: "gradient_loop w h colors [0..h - 1] img0 = Inr img'" "cv_size img' = cv_size img0"
    and p: "\<forall>x y. cv_pixel img' (x, y) =
              (if y \<in> set [0..h - 1] \<and> 0 \<le> x \<and> x \<le> w \<and> x < fst (cv_size img0) \<and>
                  0 \<le> y \<and> y < snd (cv_size img0)
               then with_alpha (projr (gradient_row h colors y))
               else cv_pixel img0 (x, y))"
    by blast
  have "create_soft_gradient (w, h) colors = Inr img'"
    by (simp add: create_soft_gradient_def new r(1))
  moreover have "cv_size img' = (w, h)" using r(2) by (simp add: img0_def)
  moreover have "\<forall>x y. 0 \<le> x \<and> x < w \<and> 0 \<le> y \<and> y < h \<longrightarrow>
              cv_pixel img' (x, y) = with_alpha (projr (gradient_row h colors y))"
    using p by (auto simp: img0_def)
  ultimately show ?thesis by blast
qed

text \<open>
  C10: for every size \<open>(w, h)\<close> with \<open>w \<ge> 1\<close> and \<open>h \<ge> 1\<close> and every list of at least two
  stops, \<open>create_soft_gradient\<close> returns an image of exactly that size in which every
  pixel has alpha 255.
\<close>

theorem create_soft_gradient_opaque:
  assumes "1 \<le> w" "1 \<le> h" "2 \<le> length colors"
  shows "\<exists>img. create_soft_gradient (w, h) colors = Inr img \<and> cv_size img = (w, h) \<and>
           (\<forall>x y. 0 \<le> x \<and> x < w \<and> 0 \<le> y \<and> y < h \<longrightarrow>
              snd (snd (snd (cv_pixel img (x, y)))) = 255)"
proof -
  from create_soft_gradient_result[of w h colors] assms obtain img where
    i: "create_soft_gradient (w, h) colors = Inr img" "cv_size img = (w, h)"
    "\<forall>x y. 0 \<le> x \<and> x < w \<and> 0 \<le> y \<and> y < h \<longrightarrow>
              cv_pixel img (x, y) = with_alpha (projr (gradient_row h colors y))"
    by auto
  have "snd (snd (snd (with_alpha c))) = 255" for c by (cases c) simp
  with i show ?thesis by auto
qed

text \<open>The hypotheses of C10 hold for a 2 x 3 canvas with two stops.\<close>

theorem create_soft_gradient_opaque_witness:
  "(1::int) \<le> 2 \<and> (1::int) \<le> 3 \<and>
   2 \<le> length [(255, 230, 240), (250, 150, 190) :: rgb] \<and>
   (\<exists>img. create_soft_gradient (2, 3) [(255, 230, 240), (250, 150, 190)] = Inr img \<and>
      cv_size img = (2, 3) \<and> snd (snd (snd (cv_pixel img (1, 2)))) = 255)"
proof -
  from create_soft_gradient_opaque[of 2 3 "[(255, 230, 240), (250, 150, 190)]"]
  obtain img where "create_soft_gradient (2, 3) [(255, 230, 240), (250, 150, 190)] = Inr img"
    "cv_size img = (2, 3)"
    "\<forall>x y. 0 \<le> x \<and> x < 2 \<and> 0 \<le> y \<and> y < 3 \<longrightarrow>
              snd (snd (snd (cv_pixel img (x, y)))) = 255"
    by auto
  then have "create_soft_gradient (2, 3) [(255, 230, 240), (250, 150, 190)] = Inr img \<and>
      cv_size img = (2, 3) \<and> snd (snd (snd (cv_pixel img (1, 2)))) = 255"
    by simp
  then show ?thesis by auto
qed

section \<open>The first, middle and last rows of the gradient\<close>

lemma imulf_zero [simp]: "imulf n 0 = 0"
  by (simp add: imulf_def fmul_def)

lemma py_int_of_int [simp]: "py_int (of_int n) = n"
  by (simp add: py_int_def)

lemma lerp_channel_zero:
  assumes "\<bar>a\<bar> \<le> 2 ^ 53"
  shows "lerp_channel a b 0 = a"
  using assms by (simp add: lerp_channel_def fadd_def float_of_int_exact fl_of_int)

lemma lerp_zero:
  assumes "valid_rgb c1"
  shows "lerp c1 c2 0 = c1"
proof -
  obtain a1 a2 a3 where c1: "c1 = (a1, a2, a3)" by (cases c1)
  obtain b1 b2 b3 where c2: "c2 = (b1, b2, b3)" by (cases c2)
  have "\<bar>a1\<bar> \<le> 2 ^ 53" "\<bar>a2\<bar> \<le> 2 ^ 53" "\<bar>a3\<bar> \<le> 2 ^ 53"
    using assms by (auto simp: valid_rgb_def c1)
  then show ?thesis by (simp add: c1 c2 lerp_channel_zero)
qed

lemma fl_half: "fl (1 / 2) = 1 / 2" by code_simp
lemma smoothstep_half: "smoothstep (1 / 2) = 1 / 2" by code_simp
lemma smoothstep_zero: "smoothstep 0 = 0" by (simp add: smoothstep_def fmul_def)

lemma gradient_row_midpoint:
  assumes "even h" "2 \<le> h" "valid_rgb c1"
  shows "gradient_row h [c0, c1, c2] (h div 2) = Inr c1"
proof -
  have "of_int (h div 2) / of_int h = (1 / 2 :: real)"
    using assms(1,2) by (auto elim!: evenE)
  then have t: "truediv (h div 2) h = 1 / 2" by (simp add: truediv_def fl_half)
  show ?thesis
    by (simp add: gradient_row_def Let_def t smoothstep_half fmul_def fsub_def py_int_def
        py_index_def lerp_zero[OF assms(3)])
qed

lemma gradient_row_first:
  assumes "valid_rgb c0"
  shows "gradient_row h [c0, c1] 0 = Inr c0"
  by (simp add: gradient_row_def Let_def truediv_def smoothstep_zero fmul_def fsub_def
      py_int_def py_index_def lerp_zero[OF assms])

lemma pixel_of_gradient:
  assumes "0 \<le> x" "x < w" "0 \<le> y" "y < h" "2 \<le> length cs" "gradient_row h cs y = Inr c"
  shows "pixel_of (create_soft_gradient (w, h) cs) (x, y) = Some (with_alpha c)"
proof -
  from create_soft_gradient_result[of w h cs] assms obtain img where
    "create_soft_gradient (w, h) cs = Inr img"
    "\<forall>x y. 0 \<le> x \<and> x < w \<and> 0 \<le> y \<and> y < h \<longrightarrow>
              cv_pixel img (x, y) = with_alpha (projr (gradient_row h cs y))"
    by auto
  then show ?thesis using assms by (simp add: pixel_of_def)
qed

text \<open>
  C5: for every list of three well-formed stops and every even canvas height \<open>h \<ge> 2\<close>, the
  row at the vertical midpoint \<open>y = h div 2\<close> is rendered in exactly the middle stop's colour:
  the smoothstep of 0.5 is 0.5 in binary64, the stop position is 1 and the fraction 0.
\<close>

theorem gradient_midpoint_is_middle_stop:
  assumes "even h" "2 \<le> h" "valid_rgb c1" "0 \<le> x" "x < w"
  shows "pixel_of (create_soft_gradient (w, h) [c0, c1, c2]) (x, h div 2) = Some (with_alpha c1)
       \<and> smoothstep (truediv (h div 2) h) = 1 / 2"
proof -
  have "of_int (h div 2) / of_int h = (1 / 2 :: real)"
    using assms(1,2) by (auto elim!: evenE)
  then have t: "truediv (h div 2) h = 1 / 2" by (simp add: truediv_def fl_half)
  have "pixel_of (create_soft_gradient (w, h) [c0, c1, c2]) (x, h div 2) = Some (with_alpha c1)"
    using assms by (intro pixel_of_gradient gradient_row_midpoint) auto
  then show ?thesis by (simp add: t smoothstep_half)
qed

text \<open>The hypotheses of C5 hold on the 1284 x 2778 canvas with the stops of the first screen.\<close>

theorem gradient_midpoint_is_middle_stop_witness:
  "even (2778::int) \<and> (2::int) \<le> 2778 \<and> valid_rgb (255, 190, 215) \<and> (0::int) \<le> 17 \<and>
   (17::int) < 1284 \<and>
   pixel_of (create_soft_gradient (1284, 2778) [(255, 230, 240), (255, 190, 215), (250, 150, 190)])
     (17, 1389) = Some (255, 190, 215, 255)"
  using gradient_midpoint_is_middle_stop
    [of 2778 "(255, 190, 215)" 17 1284 "(255, 230, 240)" "(250, 150, 190)"]
  by (simp add: valid_rgb_def)

lemma t_99: "truediv 99 100 = 4458563631096791 / 4503599627370496"
  by code_simp

lemma eased_99:
  "smoothstep (4458563631096791 / 4503599627370496) = 9004515109363079 / 9007199254740992"
  by code_simp

lemma pos_99:
  "fmul (9004515109363079 / 9007199254740992) 1 = 9004515109363079 / 9007199254740992"
  by code_simp

lemma idx_99: "py_int (9004515109363079 / 9007199254740992) = 0"
  by code_simp

lemma frac_99:
  "fsub (9004515109363079 / 9007199254740992) 0 = 9004515109363079 / 9007199254740992"
  by code_simp

lemma lerp_99:
  "lerp_channel 255 250 (9004515109363079 / 9007199254740992) = 250"
  "lerp_channel 230 150 (9004515109363079 / 9007199254740992) = 150"
  "lerp_channel 240 190 (9004515109363079 / 9007199254740992) = 190"
  by code_simp+

lemma row_99: "gradient_row 100 [(255, 230, 240), (250, 150, 190)] 99 = Inr (250, 150, 190)"
  apply (simp only: gradient_row_def Let_def t_99 eased_99)
  apply (simp add: pos_99 idx_99 frac_99 lerp_99 py_index_def)
  done

lemma row_h1: "gradient_row 1 [(0, 0, 0), (255, 255, 255)] 0 = Inr (0, 0, 0)"
  by (rule gradient_row_first) (simp add: valid_rgb_def)

lemma lerp_half: "lerp_channel 0 255 (1 / 2) = 127"
  by code_simp

lemma row_h2: "gradient_row 2 [(0, 0, 0), (255, 255, 255)] 1 = Inr (127, 127, 127)"
proof -
  have t: "truediv 1 2 = 1 / 2" by (simp add: truediv_def fl_half)
  show ?thesis
    by (simp add: gradient_row_def Let_def t smoothstep_half fmul_def fsub_def fl_half py_int_def
        py_index_def lerp_half)
qed

text \<open>
  C6 as stated fails for small heights: with height 1 the last row is row 0 and has the
  first stop's colour, with height 2 the last row is the even blend of the two stops.
\<close>

theorem gradient_last_row_counterexample:
  "pixel_of (create_soft_gradient (1, 1) [(0, 0, 0), (255, 255, 255)]) (0, 0) = Some (0, 0, 0, 255)
   \<and> pixel_of (create_soft_gradient (1, 2) [(0, 0, 0), (255, 255, 255)]) (0, 1) =
       Some (127, 127, 127, 255)
   \<and> \<not> within_rounding (0, 0, 0, 255) (255, 255, 255, 255)
   \<and> \<not> within_rounding (127, 127, 127, 255) (255, 255, 255, 255)"
  using pixel_of_gradient[OF _ _ _ _ _ row_h1, of 0 1] pixel_of_gradient[OF _ _ _ _ _ row_h2, of 0 1]
  by simp

section \<open>The last row of a two-stop gradient\<close>

lemma fl_abs_error:
  assumes "\<bar>x\<bar> \<le> 256"
  shows "\<bar>fl x - x\<bar> \<le> 1 / 10000000000000"
proof -
  have "\<bar>fl x - x\<bar> \<le> \<bar>x\<bar> / 2 ^ 53" by (rule fl_error)
  also have "\<dots> \<le> 256 / 2 ^ 53" using assms by (simp add: divide_right_mono)
  also have "\<dots> \<le> (1 / 10000000000000 :: real)" by simp
  finally show ?thesis .
qed

lemma fl_three: "fl 3 = 3"
  using fl_of_int[of 3] by simp

text \<open>The eased position of a row near the end of the gradient.\<close>

lemma smoothstep_near_one:
  assumes t: "27 / 28 - 1 / 10000000000000 \<le> t" "t \<le> 1"
  shows "\<bar>smoothstep t - 1\<bar> \<le> 3829 / 1000000"
proof -
  define \<eta> :: real where "\<eta> = 1 / 10000000000000"
  define A where "A = fmul t t"
  define D where "D = imulf 2 t"
  define B where "B = fsub (float_of_int 3) D"
  have t0: "0 \<le> t" using t(1) by simp
  have tt: "0 \<le> t * t" "t * t \<le> 1" using t0 t(2) by (simp_all add: mult_le_one)
  have eA: "\<bar>A - t * t\<bar> \<le> \<eta>"
    unfolding A_def fmul_def \<eta>_def using tt by (intro fl_abs_error) linarith
  have "\<bar>fl (2 * t) - 2 * t\<bar> \<le> 1 / 10000000000000"
    using t0 t(2) by (intro fl_abs_error) linarith
  then have eD: "\<bar>D - 2 * t\<bar> \<le> \<eta>"
    by (simp add: D_def imulf_def fmul_def \<eta>_def)
  have "\<bar>3 - D\<bar> \<le> 256" using eD t0 t(2) unfolding \<eta>_def by linarith
  then have "\<bar>fl (3 - D) - (3 - D)\<bar> \<le> 1 / 10000000000000" by (rule fl_abs_error)
  then have eB: "\<bar>B - (3 - D)\<bar> \<le> \<eta>"
    by (simp add: B_def fsub_def \<eta>_def)
  have B': "\<bar>B - (3 - 2 * t)\<bar> \<le> 2 * \<eta>" using eB eD by linarith
  have "0 \<le> A" unfolding A_def fmul_def using tt by (intro fl_nonneg)
  moreover have "A \<le> 2" using eA tt unfolding \<eta>_def by linarith
  ultimately have Ab: "0 \<le> A" "A \<le> 2" by simp_all
  have Bb: "0 \<le> B" "B \<le> 4" using B' t0 t(2) unfolding \<eta>_def by linarith+
  have "A * B \<le> 2 * 4" using Ab Bb by (intro mult_mono) auto
  moreover have "0 \<le> A * B" using Ab Bb by simp
  ultimately have AB: "\<bar>A * B\<bar> \<le> 256" by linarith
  have st: "smoothstep t = fl (A * B)"
    by (simp add: smoothstep_def A_def D_def B_def fmul_def)
  have eT: "\<bar>smoothstep t - A * B\<bar> \<le> \<eta>"
    unfolding st \<eta>_def using AB by (rule fl_abs_error)
  define P where "P = t * t * (3 - 2 * t)"
  have "A * B - P = (A - t * t) * B + t * t * (B - (3 - 2 * t))"
    by (simp add: P_def algebra_simps)
  moreover have "\<bar>(A - t * t) * B\<bar> \<le> \<eta> * 4"
    unfolding abs_mult using eA Bb by (intro mult_mono) auto
  moreover have "\<bar>t * t * (B - (3 - 2 * t))\<bar> \<le> 1 * (2 * \<eta>)"
    unfolding abs_mult using B' tt by (intro mult_mono) auto
  ultimately have eP: "\<bar>A * B - P\<bar> \<le> 6 * \<eta>" by linarith
  have id: "1 - P = (1 - t) * (1 - t) * (1 + 2 * t)" by (simp add: P_def algebra_simps)
  have u: "0 \<le> 1 - t" "1 - t \<le> 1 / 28 + \<eta>" using t unfolding \<eta>_def by linarith+
  have "(1 - t) * (1 - t) \<le> (1 / 28 + \<eta>) * (1 / 28 + \<eta>)"
    using u by (intro mult_mono) auto
  moreover have "0 \<le> (1 - t) * (1 - t)" by simp
  ultimately have "(1 - t) * (1 - t) * (1 + 2 * t) \<le> (1 / 28 + \<eta>) * (1 / 28 + \<eta>) * 3"
  proof (intro mult_mono[where b = "(1 / 28 + \<eta>) * (1 / 28 + \<eta>)" and d = 3])
    show "1 + 2 * t \<le> 3" using t(2) by simp
    show "0 \<le> (1 / 28 + \<eta>) * (1 / 28 + \<eta>)" by simp
    show "0 \<le> 1 + 2 * t" using t0 by simp
  qed
  moreover have "0 \<le> (1 - t) * (1 - t) * (1 + 2 * t)" using t0 by simp
  ultimately have P: "0 \<le> 1 - P" "1 - P \<le> (1 / 28 + \<eta>) * (1 / 28 + \<eta>) * 3"
    unfolding id by simp_all
  have "(1 / 28 + \<eta>) * (1 / 28 + \<eta>) * 3 \<le> (3828 / 1000000 :: real)"
    by (simp add: \<eta>_def)
  with P eP eT show ?thesis unfolding \<eta>_def by linarith
qed

lemma truediv_last_row:
  assumes "28 \<le> h"
  shows "27 / 28 - 1 / 10000000000000 \<le> truediv (h - 1) h" "truediv (h - 1) h \<le> 1"
proof -
  define q :: real where "q = of_int (h - 1) / of_int h"
  have h: "0 < real_of_int h" "28 \<le> real_of_int h" using assms by simp_all
  have q1: "q = 1 - 1 / of_int h" using h by (simp add: q_def field_simps)
  have "1 / real_of_int h \<le> 1 / 28" using h by (simp add: field_simps)
  moreover have "0 < 1 / real_of_int h" using h by simp
  ultimately have q: "27 / 28 \<le> q" "q \<le> 1" unfolding q1 by simp_all
  have "\<bar>fl q - q\<bar> \<le> 1 / 10000000000000" using q by (intro fl_abs_error) linarith
  then show "27 / 28 - 1 / 10000000000000 \<le> truediv (h - 1) h"
    using q unfolding truediv_def q_def[symmetric] by linarith
  have "fl q \<le> fl 1" using q(2) by (rule fl_mono)
  then show "truediv (h - 1) h \<le> 1" unfolding truediv_def q_def[symmetric] by simp
qed

lemma lerp_channel_near:
  assumes a: "0 \<le> a" "a \<le> 255" and b: "0 \<le> b" "b \<le> 255"
    and f: "\<bar>f - 1\<bar> \<le> 383 / 100000"
  shows "\<bar>lerp_channel a b f - b\<bar> \<le> 1"
proof -
  define d where "d = b - a"
  have d: "\<bar>real_of_int d\<bar> \<le> 255" using a b unfolding d_def by simp
  have fd: "float_of_int d = of_int d"
    using a b by (intro float_of_int_exact) (simp add: d_def abs_le_iff)
  have fa: "float_of_int a = of_int a"
    using a by (intro float_of_int_exact) (simp add: abs_le_iff)
  define e where "e = imulf d f"
  have "\<bar>of_int d * f - of_int d\<bar> = \<bar>real_of_int d\<bar> * \<bar>f - 1\<bar>"
    by (simp add: abs_mult[symmetric] algebra_simps)
  also have "\<dots> \<le> 255 * (383 / 100000)" using d f by (intro mult_mono) auto
  finally have df: "\<bar>of_int d * f - of_int d\<bar> \<le> 97665 / 100000" by simp
  then have "\<bar>of_int d * f\<bar> \<le> 256" using d by linarith
  then have "\<bar>e - of_int d * f\<bar> \<le> 1 / 10000000000000"
    unfolding e_def imulf_def fmul_def fd by (rule fl_abs_error)
  with df have e: "\<bar>e - of_int d\<bar> \<le> 97666 / 100000" by linarith
  define x where "x = fadd (float_of_int a) e"
  have ab: "real_of_int a + real_of_int d = of_int b" by (simp add: d_def)
  have s: "\<bar>(of_int a + e) - of_int b\<bar> \<le> 97666 / 100000" using e ab by linarith
  have "0 \<le> real_of_int b" "real_of_int b \<le> 255" using b by simp_all
  with s have "\<bar>of_int a + e\<bar> \<le> 256" by linarith
  then have "\<bar>x - (of_int a + e)\<bar> \<le> 1 / 10000000000000"
    unfolding x_def fadd_def fa by (rule fl_abs_error)
  with s have x: "of_int b - 1 < x" "x < of_int b + 1" by linarith+
  have "b - 1 \<le> py_int x \<and> py_int x \<le> b"
  proof (cases "0 \<le> x")
    case True
    then have "py_int x = \<lfloor>x\<rfloor>" by (simp add: py_int_def)
    moreover have "b - 1 \<le> \<lfloor>x\<rfloor>" using x(1) by (simp add: le_floor_iff)
    moreover have "\<lfloor>x\<rfloor> \<le> b" using x(2) by (simp add: floor_le_iff)
    ultimately show ?thesis by simp
  next
    case False
    then have "py_int x = \<lceil>x\<rceil>" by (simp add: py_int_def)
    moreover have "real_of_int b < 1" using False x(1) by linarith
    then have b0: "b = 0" using b(1) by simp
    have "\<lceil>x\<rceil> = 0" using False x(1) unfolding b0 by (simp add: ceiling_eq_iff)
    ultimately show ?thesis using b0 by simp
  qed
  then show ?thesis unfolding lerp_channel_def x_def e_def d_def by linarith
qed

lemma gradient_row_last:
  assumes "28 \<le> h" "valid_rgb c0" "valid_rgb c1"
  shows "\<exists>c. gradient_row h [c0, c1] (h - 1) = Inr c \<and>
             within_rounding (with_alpha c) (with_alpha c1)"
proof -
  define te where "te = smoothstep (truediv (h - 1) h)"
  define pos where "pos = fmul te 1"
  define f where "f = fsub pos 0"
  have te: "\<bar>te - 1\<bar> \<le> 3829 / 1000000"
    unfolding te_def using truediv_last_row[OF assms(1)] by (intro smoothstep_near_one)
  then have "\<bar>te\<bar> \<le> 256" by linarith
  then have "\<bar>fl te - te\<bar> \<le> 1 / 10000000000000" by (rule fl_abs_error)
  then have "\<bar>pos - te\<bar> \<le> 1 / 10000000000000" by (simp add: pos_def fmul_def)
  with te have pos: "\<bar>pos - 1\<bar> \<le> 38291 / 10000000" by linarith
  then have "\<bar>pos\<bar> \<le> 256" by linarith
  then have "\<bar>fl pos - pos\<bar> \<le> 1 / 10000000000000" by (rule fl_abs_error)
  then have "\<bar>f - pos\<bar> \<le> 1 / 10000000000000" by (simp add: f_def fsub_def)
  with pos have f: "\<bar>f - 1\<bar> \<le> 383 / 100000" by linarith
  have p0: "0 \<le> pos" using pos by linarith
  then have pi: "0 \<le> py_int pos" by (rule py_int_nonneg)
  then have idx: "min (py_int pos) 0 = 0" by simp
  have row: "gradient_row h [c0, c1] (h - 1) = Inr (lerp c0 c1 f)"
    using pi by (simp add: gradient_row_def Let_def te_def[symmetric] pos_def[symmetric] idx
        f_def[symmetric] py_index_def)
  obtain a1 a2 a3 where c0: "c0 = (a1, a2, a3)" by (cases c0)
  obtain b1 b2 b3 where c1: "c1 = (b1, b2, b3)" by (cases c1)
  have "within_rounding (with_alpha (lerp c0 c1 f)) (with_alpha c1)"
    using assms(2,3) f unfolding c0 c1 valid_rgb_def
    by (simp add: lerp_channel_near)
  with row show ?thesis by blast
qed

text \<open>
  C6 (amended): for every pair of well-formed stops and every canvas height \<open>h \<ge> 1\<close>, row 0
  is rendered in exactly the first stop's colour; the last row, at \<open>t = (h - 1) / h\<close>, is
  within rounding (at most 1 per channel) of the second stop's colour for every height of
  at least 28; and for the stops \<open>[(255, 230, 240), (250, 150, 190)]\<close> and height 100, row 0
  is \<open>(255, 230, 240)\<close> and row 99 is \<open>(250, 150, 190)\<close>.
\<close>

theorem gradient_two_stops_ends:
  assumes "1 \<le> h" "valid_rgb c0" "valid_rgb c1" "0 \<le> x" "x < w"
  shows "pixel_of (create_soft_gradient (w, h) [c0, c1]) (x, 0) = Some (with_alpha c0)
       \<and> (28 \<le> h \<longrightarrow>
            (\<exists>p. pixel_of (create_soft_gradient (w, h) [c0, c1]) (x, h - 1) = Some p \<and>
                 within_rounding p (with_alpha c1)))
       \<and> pixel_of (create_soft_gradient (w, 100) [(255, 230, 240), (250, 150, 190)]) (x, 0) =
            Some (255, 230, 240, 255)
       \<and> pixel_of (create_soft_gradient (w, 100) [(255, 230, 240), (250, 150, 190)]) (x, 99) =
            Some (250, 150, 190, 255)"
proof (intro conjI impI)
  show "pixel_of (create_soft_gradient (w, h) [c0, c1]) (x, 0) = Some (with_alpha c0)"
    using assms by (intro pixel_of_gradient gradient_row_first) auto
next
  assume h: "28 \<le> h"
  from gradient_row_last[OF h assms(2,3)] obtain c where
    c: "gradient_row h [c0, c1] (h - 1) = Inr c" "within_rounding (with_alpha c) (with_alpha c1)"
    by blast
  have "pixel_of (create_soft_gradient (w, h) [c0, c1]) (x, h - 1) = Some (with_alpha c)"
    using assms h c(1) by (intro pixel_of_gradient) auto
  with c(2) show "\<exists>p. pixel_of (create_soft_gradient (w, h) [c0, c1]) (x, h - 1) = Some p \<and>
                 within_rounding p (with_alpha c1)"
    by blast
next
  have "gradient_row 100 [(255, 230, 240), (250, 150, 190)] 0 = Inr (255, 230, 240)"
    by (rule gradient_row_first) (simp add: valid_rgb_def)
  then have "pixel_of (create_soft_gradient (w, 100) [(255, 230, 240), (250, 150, 190)]) (x, 0) =
            Some (with_alpha (255, 230, 240))"
    using assms by (intro pixel_of_gradient) auto
  then show "pixel_of (create_soft_gradient (w, 100) [(255, 230, 240), (250, 150, 190)]) (x, 0) =
            Some (255, 230, 240, 255)"
    by simp
next
  have "pixel_of (create_soft_gradient (w, 100) [(255, 230, 240), (250, 150, 190)]) (x, 99) =
            Some (with_alpha (250, 150, 190))"
    using assms row_99 by (intro pixel_of_gradient) auto
  then show "pixel_of (create_soft_gradient (w, 100) [(255, 230, 240), (250, 150, 190)]) (x, 99) =
            Some (250, 150, 190, 255)"
    by simp
qed

text \<open>The hypotheses of C6 (amended) hold for the example stops at height 100.\<close>

theorem gradient_two_stops_ends_witness:
  "(1::int) \<le> 100 \<and> valid_rgb (255, 230, 240) \<and> valid_rgb (250, 150, 190) \<and>
   (0::int) \<le> 0 \<and> (0::int) < 1284 \<and> (28::int) \<le> 100 \<and>
   pixel_of (create_soft_gradient (1284, 100) [(255, 230, 240), (250, 150, 190)]) (0, 0) =
     Some (255, 230, 240, 255) \<and>
   (\<exists>p. pixel_of (create_soft_gradient (1284, 100) [(255, 230, 240), (250, 150, 190)]) (0, 99) =
          Some p \<and> within_rounding p (250, 150, 190, 255))"
proof -
  have v: "valid_rgb (255, 230, 240)" "valid_rgb (250, 150, 190)" by (simp_all add: valid_rgb_def)
  have n: "(1::int) \<le> 100" "(0::int) \<le> 0" "(0::int) < 1284" "(28::int) \<le> 100" by simp_all
  note t = gradient_two_stops_ends[OF n(1) v n(2) n(3)]
  from t have a: "pixel_of (create_soft_gradient (1284, 100) [(255, 230, 240), (250, 150, 190)])
      (0, 0) = Some (255, 230, 240, 255)"
    by simp
  from t n(4) have "\<exists>p. pixel_of (create_soft_gradient (1284, 100)
      [(255, 230, 240), (250, 150, 190)]) (0, 100 - 1) = Some p \<and>
      within_rounding p (with_alpha (250, 150, 190))"
    by blast
  then have b: "\<exists>p. pixel_of (create_soft_gradient (1284, 100)
      [(255, 230, 240), (250, 150, 190)]) (0, 99) = Some p \<and>
      within_rounding p (250, 150, 190, 255)"
    by simp
  show ?thesis using v n a b by blast
qed


section \<open>The growth curve of shot3\<close>

text \<open>The constants of the curve are binary64 numbers.\<close>

lemma fl_consts: "fl (5 / 2) = 5 / 2" "fl (11 / 2) = 11 / 2" "fl 10 = 10"
  using fl_of_int[of 10] by (simp, code_simp, code_simp, simp)

lemma sample_t:
  assumes "0 \<le> i" "i \<le> 29"
  shows "0 \<le> truediv i 29" "truediv i 29 \<le> 1"
proof -
  have q: "0 \<le> real_of_int i / 29" "real_of_int i / 29 \<le> 1" using assms by simp_all
  show "0 \<le> truediv i 29" unfolding truediv_def using q(1) by (simp add: fl_nonneg)
  have "fl (real_of_int i / 29) \<le> fl 1" using q(2) by (rule fl_mono)
  then show "truediv i 29 \<le> 1" by (simp add: truediv_def)
qed

lemma sample_t_mono:
  assumes "i \<le> j"
  shows "truediv i 29 \<le> truediv j 29"
  unfolding truediv_def using assms by (intro fl_mono) (simp add: divide_right_mono)

lemma growth_x_mono:
  assumes "0 \<le> chart_w" "i \<le> j"
  shows "fst (growth_point math_exp chart_x chart_w y chart_h i) \<le>
         fst (growth_point math_exp chart_x chart_w y chart_h j)"
proof -
  have c: "0 \<le> float_of_int chart_w" using assms(1) by (rule float_of_int_nonneg)
  have "truediv i 29 * float_of_int chart_w \<le> truediv j 29 * float_of_int chart_w"
    using sample_t_mono[OF assms(2)] c by (rule mult_right_mono)
  then have "fmul (truediv i 29) (float_of_int chart_w) \<le> fmul (truediv j 29) (float_of_int chart_w)"
    unfolding fmul_def by (rule fl_mono)
  then have "py_int (fmul (truediv i 29) (float_of_int chart_w)) \<le>
             py_int (fmul (truediv j 29) (float_of_int chart_w))"
    by (rule py_int_mono)
  then show ?thesis by (simp add: growth_point_def Let_def)
qed

text \<open>The weight of a sample, as a fraction of the 10 kg axis.\<close>

lemma growth_fraction:
  assumes e: "\<forall>x. \<bar>math_exp x - exp x\<bar> \<le> exp x / 2 ^ 52" and t: "0 \<le> t" "t \<le> 1"
  shows "29 / 100 \<le> fdiv (fsub (fadd (fl 3) (fmul (fl (11 / 2))
            (fsub (float_of_int 1) (math_exp (fmul (fl (- (5 / 2))) t))))) (float_of_int 0)) (fl 10)"
    and "fdiv (fsub (fadd (fl 3) (fmul (fl (11 / 2))
            (fsub (float_of_int 1) (math_exp (fmul (fl (- (5 / 2))) t))))) (float_of_int 0)) (fl 10)
          \<le> 86 / 100"
proof -
  define a where "a = fmul (fl (- (5 / 2))) t"
  define ex where "ex = math_exp a"
  define m where "m = fsub (float_of_int 1) ex"
  define p where "p = fmul (fl (11 / 2)) m"
  define wt where "wt = fadd (fl 3) p"
  define v where "v = fsub wt (float_of_int 0)"
  define r where "r = fdiv v (fl 10)"
  have "fl (- (5 / 2) * t) \<le> fl 0" using t by (intro fl_mono) simp
  then have a: "a \<le> 0" by (simp add: a_def fmul_def fl_neg fl_consts)
  have ea: "0 < exp a" "exp a \<le> 1" using a by simp_all
  have "\<bar>ex - exp a\<bar> \<le> exp a / 2 ^ 52" unfolding ex_def using e by blast
  moreover have "exp a / 2 ^ 52 \<le> 1 / 2 ^ 52" using ea by (simp add: divide_right_mono)
  moreover have "(1 / 2 ^ 52 :: real) \<le> 1 / 10000000000000" by simp
  ultimately have ex: "- (1 / 10000000000000) \<le> ex" "ex \<le> 1 + 1 / 10000000000000"
    using ea by linarith+
  have me: "m = fl (1 - ex)" by (simp add: m_def fsub_def)
  have "\<bar>1 - ex\<bar> \<le> 256" using ex by linarith
  then have "\<bar>fl (1 - ex) - (1 - ex)\<bar> \<le> 1 / 10000000000000" by (rule fl_abs_error)
  then have m: "- (2 / 10000000000000) \<le> m" "m \<le> 1 + 2 / 10000000000000"
    unfolding me using ex by linarith+
  have pe: "p = fl (11 / 2 * m)" by (simp add: p_def fmul_def fl_consts)
  have "\<bar>11 / 2 * m\<bar> \<le> 256" using m by linarith
  then have "\<bar>fl (11 / 2 * m) - 11 / 2 * m\<bar> \<le> 1 / 10000000000000" by (rule fl_abs_error)
  then have p: "- (1 / 100000000000) \<le> p" "p \<le> 11 / 2 + 1 / 100000000000"
    unfolding pe using m by linarith+
  have we: "wt = fl (3 + p)" by (simp add: wt_def fadd_def fl_three)
  have "\<bar>3 + p\<bar> \<le> 256" using p by linarith
  then have "\<bar>fl (3 + p) - (3 + p)\<bar> \<le> 1 / 10000000000000" by (rule fl_abs_error)
  then have wt: "3 - 1 / 10000000000 \<le> wt" "wt \<le> 17 / 2 + 1 / 10000000000"
    unfolding we using p by linarith+
  have ve: "v = fl wt" by (simp add: v_def fsub_def)
  have "\<bar>wt\<bar> \<le> 256" using wt by linarith
  then have "\<bar>fl wt - wt\<bar> \<le> 1 / 10000000000000" by (rule fl_abs_error)
  then have v: "3 - 1 / 1000000000 \<le> v" "v \<le> 17 / 2 + 1 / 1000000000"
    unfolding ve using wt by linarith+
  have re: "r = fl (v / 10)" by (simp add: r_def fdiv_def fl_consts)
  have "\<bar>v / 10\<bar> \<le> 256" using v by linarith
  then have "\<bar>fl (v / 10) - v / 10\<bar> \<le> 1 / 10000000000000" by (rule fl_abs_error)
  then have r: "29 / 100 \<le> r" "r \<le> 86 / 100"
    unfolding re using v by linarith+
  show "29 / 100 \<le> fdiv (fsub (fadd (fl 3) (fmul (fl (11 / 2))
            (fsub (float_of_int 1) (math_exp (fmul (fl (- (5 / 2))) t))))) (float_of_int 0)) (fl 10)"
    using r(1) unfolding r_def v_def wt_def p_def m_def ex_def a_def .
  show "fdiv (fsub (fadd (fl 3) (fmul (fl (11 / 2))
            (fsub (float_of_int 1) (math_exp (fmul (fl (- (5 / 2))) t))))) (float_of_int 0)) (fl 10)
          \<le> 86 / 100"
    using r(2) unfolding r_def v_def wt_def p_def m_def ex_def a_def .
qed

lemma scaled_fraction_in_range:
  assumes "0 \<le> c" "0 \<le> r" "r \<le> 86 / 100"
  shows "0 \<le> py_int (fmul r (float_of_int c))" "py_int (fmul r (float_of_int c)) \<le> c"
proof -
  have fc: "0 \<le> float_of_int c" using assms(1) by (rule float_of_int_nonneg)
  have fcu: "float_of_int c \<le> of_int c * (1 + 1 / 2 ^ 53)"
    unfolding float_of_int_def using assms(1) by (intro fl_upper) simp
  have x0: "0 \<le> r * float_of_int c" using assms(2) fc by simp
  then have q0: "0 \<le> fmul r (float_of_int c)" unfolding fmul_def by (rule fl_nonneg)
  then show "0 \<le> py_int (fmul r (float_of_int c))" by (rule py_int_nonneg)
  have "fmul r (float_of_int c) \<le> (r * float_of_int c) * (1 + 1 / 2 ^ 53)"
    unfolding fmul_def using x0 by (rule fl_upper)
  also have "\<dots> \<le> (86 / 100 * (of_int c * (1 + 1 / 2 ^ 53))) * (1 + 1 / 2 ^ 53)"
    using assms fc fcu by (intro mult_right_mono mult_mono) auto
  also have "\<dots> = of_int c * (86 / 100 * (1 + 1 / 2 ^ 53) * (1 + 1 / 2 ^ 53))" by simp
  also have "\<dots> \<le> of_int c * 1"
    using assms(1) by (intro mult_left_mono) simp_all
  finally have "fmul r (float_of_int c) \<le> of_int c" by simp
  moreover have "of_int (py_int (fmul r (float_of_int c))) \<le> fmul r (float_of_int c)"
    using q0 by (rule py_int_le)
  ultimately have "real_of_int (py_int (fmul r (float_of_int c))) \<le> of_int c" by linarith
  then show "py_int (fmul r (float_of_int c)) \<le> c" by (simp only: of_int_le_iff)
qed

lemma growth_y_bounds:
  assumes "\<forall>x. \<bar>math_exp x - exp x\<bar> \<le> exp x / 2 ^ 52" "0 \<le> chart_h" "0 \<le> i" "i \<le> 29"
  shows "y \<le> snd (growth_point math_exp chart_x chart_w y chart_h i)"
    and "snd (growth_point math_exp chart_x chart_w y chart_h i) \<le> y + chart_h"
proof -
  note f = growth_fraction[OF assms(1) sample_t[OF assms(3,4)]]
  have r0: "0 \<le> fdiv (fsub (fadd (fl 3) (fmul (fl (11 / 2))
            (fsub (float_of_int 1) (math_exp (fmul (fl (- (5 / 2))) (truediv i 29))))))
            (float_of_int 0)) (fl 10)"
    using f(1) by linarith
  note s = scaled_fraction_in_range[OF assms(2) r0 f(2)]
  show "y \<le> snd (growth_point math_exp chart_x chart_w y chart_h i)"
    using s(2) by (simp add: growth_point_def Let_def)
  show "snd (growth_point math_exp chart_x chart_w y chart_h i) \<le> y + chart_h"
    using s(1) by (simp add: growth_point_def Let_def)
qed

text \<open>
  The chart region: three times \<open>S(80, s)\<close> is at most 240/1290 of the width, up to rounding.
\<close>

lemma shot3_chart_extent:
  assumes "0 \<le> w"
  shows "0 \<le> w - S 80 (truediv w 1290) * 2 - S 80 (truediv w 1290)"
    and "0 \<le> S 650 (truediv w 1290)"
proof -
  define s where "s = truediv w 1290"
  have q: "0 \<le> real_of_int w / 1290" using assms by simp
  have s0: "0 \<le> s" unfolding s_def truediv_def using q by (simp add: fl_nonneg)
  have su: "s \<le> (of_int w / 1290) * (1 + 1 / 2 ^ 53)"
    unfolding s_def truediv_def using fl_upper[OF q] by simp
  have i0: "0 \<le> imulf 80 s" using s0 by (intro imulf_nonneg) simp_all
  have "of_int (S 80 s) \<le> imulf 80 s" unfolding S_def using i0 by (rule py_int_le)
  also have "\<dots> \<le> of_int 80 * s * (1 + 1 / 2 ^ 53) * (1 + 1 / 2 ^ 53)"
    using s0 by (intro imulf_upper) simp_all
  also have "\<dots> \<le> of_int 80 * ((of_int w / 1290) * (1 + 1 / 2 ^ 53)) * (1 + 1 / 2 ^ 53)
                   * (1 + 1 / 2 ^ 53)"
    using su by (intro mult_right_mono mult_left_mono) simp_all
  also have "\<dots> = of_int w * (80 / 1290 * (1 + 1 / 2 ^ 53) * (1 + 1 / 2 ^ 53) * (1 + 1 / 2 ^ 53))"
    by simp
  also have "\<dots> \<le> of_int w * (1 / 3)"
    using assms by (intro mult_left_mono) simp_all
  finally have "real_of_int (S 80 s * 3) \<le> real_of_int w" by simp
  then have "S 80 s * 3 \<le> w" by (simp only: of_int_le_iff)
  then show "0 \<le> w - S 80 (truediv w 1290) * 2 - S 80 (truediv w 1290)"
    unfolding s_def by linarith
  have "0 \<le> imulf 650 s" using s0 by (intro imulf_nonneg) simp_all
  then show "0 \<le> S 650 (truediv w 1290)" unfolding S_def s_def by (rule py_int_nonneg)
qed

text \<open>
  C4. The growth curve of \<open>shot3\<close> has 30 sample points, \<open>t = i / 29\<close> for \<open>i = 0..29\<close>.
  The x coordinate \<open>chart_x + int(t * chart_w)\<close> does not decrease with \<open>i\<close>, and every y
  coordinate, from the weight \<open>3.0 + 5.5 * (1 - math.exp(-2.5 * t))\<close> scaled against the
  10 kg axis, lies in \<open>[y, y + chart_h]\<close>. This holds for every chart region of non-negative
  width and height, and the region \<open>shot3\<close> computes from a canvas of width \<open>w \<ge> 0\<close> (a
  negative width is refused when the canvas is created) has non-negative width and height.
  \<open>math.exp\<close> is the library's exponential: any function within one unit in the last place
  of the real exponential, a relative error of at most \<open>2 powr -52\<close>.
\<close>

theorem growth_curve_in_chart:
  assumes "\<forall>x. \<bar>math_exp x - exp x\<bar> \<le> exp x / 2 ^ 52"
  shows "(0 \<le> chart_w \<and> 0 \<le> chart_h \<longrightarrow>
            length (growth_points math_exp chart_x chart_w y chart_h) = 30
          \<and> sorted (map fst (growth_points math_exp chart_x chart_w y chart_h))
          \<and> list_all (\<lambda>p. y \<le> snd p \<and> snd p \<le> y + chart_h)
                      (growth_points math_exp chart_x chart_w y chart_h))
       \<and> (0 \<le> w \<longrightarrow> 0 \<le> w - S 80 (truediv w 1290) * 2 - S 80 (truediv w 1290)
                    \<and> 0 \<le> S 650 (truediv w 1290))"
proof (intro conjI impI)
  show "length (growth_points math_exp chart_x chart_w y chart_h) = 30"
    by (simp add: growth_points_def)
next
  assume c: "0 \<le> chart_w \<and> 0 \<le> chart_h"
  have "sorted_wrt (\<lambda>i j. fst (growth_point math_exp chart_x chart_w y chart_h i) \<le>
                          fst (growth_point math_exp chart_x chart_w y chart_h j)) [0..29]"
    using sorted_upto[of 0 29]
  proof (rule sorted_wrt_mono_rel[rotated])
    fix i j :: int
    assume "i \<le> j"
    with c show "fst (growth_point math_exp chart_x chart_w y chart_h i) \<le>
                 fst (growth_point math_exp chart_x chart_w y chart_h j)"
      by (intro growth_x_mono) simp_all
  qed
  then show "sorted (map fst (growth_points math_exp chart_x chart_w y chart_h))"
    unfolding growth_points_def sorted_map sorted_wrt_map .
next
  assume c: "0 \<le> chart_w \<and> 0 \<le> chart_h"
  have "\<forall>p \<in> set (growth_points math_exp chart_x chart_w y chart_h).
          y \<le> snd p \<and> snd p \<le> y + chart_h"
  proof
    fix p
    assume "p \<in> set (growth_points math_exp chart_x chart_w y chart_h)"
    then obtain i where i: "p = growth_point math_exp chart_x chart_w y chart_h i"
        "0 \<le> i" "i \<le> 29"
      unfolding growth_points_def by auto
    from c have h: "0 \<le> chart_h" by simp
    show "y \<le> snd p \<and> snd p \<le> y + chart_h"
      unfolding i(1) using growth_y_bounds[OF assms h i(2,3)] by simp
  qed
  then show "list_all (\<lambda>p. y \<le> snd p \<and> snd p \<le> y + chart_h)
                      (growth_points math_exp chart_x chart_w y chart_h)"
    by (simp only: list_all_iff)
next
  assume "0 \<le> w"
  then show "0 \<le> w - S 80 (truediv w 1290) * 2 - S 80 (truediv w 1290)"
    by (rule shot3_chart_extent)
next
  assume "0 \<le> w"
  then show "0 \<le> S 650 (truediv w 1290)" by (rule shot3_chart_extent)
qed

text \<open>
  The hypotheses of C4 hold for the exact exponential and the chart region of the phone canvas.
\<close>

theorem growth_curve_in_chart_witness:
  "(\<forall>x::real. \<bar>exp x - exp x\<bar> \<le> exp x / 2 ^ 52) \<and> (0::int) \<le> 1050 \<and> (0::int) \<le> 650 \<and>
   (0::int) \<le> 1290 \<and>
   length (growth_points exp 140 1050 600 650) = 30 \<and>
   sorted (map fst (growth_points exp 140 1050 600 650)) \<and>
   list_all (\<lambda>p. 600 \<le> snd p \<and> snd p \<le> 600 + 650) (growth_points exp 140 1050 600 650) \<and>
   0 \<le> 1290 - S 80 (truediv 1290 1290) * 2 - S 80 (truediv 1290 1290) \<and>
   0 \<le> S 650 (truediv 1290 1290)"
proof -
  have e: "\<forall>x::real. \<bar>exp x - exp x\<bar> \<le> exp x / 2 ^ 52" by simp
  have n: "(0::int) \<le> 1050" "(0::int) \<le> 650" "(0::int) \<le> 1290" by simp_all
  note t = growth_curve_in_chart[OF e, of 1050 650 140 600 1290]
  from t n show ?thesis using e by blast
qed

end
